theory Spec2Isabelle
  imports Complex_Main
begin

section \<open>Data model of \<open>sbc/system.py\<close>\<close>

text \<open>
  The module builds the parameter set of a spin chain: three lists of field and coupler
  strengths whose entries are numbers or \<open>Scalar\<close> objects. Python lists hold references,
  and the claims below speak about two list entries being the very same object, so an
  entry that is a \<open>Scalar\<close> instance carries its object identity (a natural number, as
  Python's \<open>id\<close>) next to what it holds. No \<open>Scalar\<close> object is mutated by this module,
  hence an identity together with the immutable content describes the object.
\<close>

text \<open>
  Modelled from the spec: the class \<open>sbc.scalar.Scalar\<close> is imported by \<open>system.py\<close> but
  its source is not part of the repository excerpt. The spec describes it as a value that is
  built from a plain number (then it is time-independent) or is a function of time.
  \<open>Const x\<close> is what \<open>Scalar(x)\<close> holds for a number \<open>x\<close>; \<open>TimeDep f\<close> is a time-dependent
  scalar with functional form \<open>f\<close>.
\<close>

datatype ('n, 'f) form = Const 'n | TimeDep 'f

text \<open>
  A list entry: \<open>Num x\<close> is a plain number, \<open>Obj a s\<close> is a reference to the \<open>Scalar\<close>
  instance with identity \<open>a\<close> and content \<open>s\<close>. The test \<open>isinstance(e, Scalar)\<close> is
  \<open>is_Scalar e\<close>.
\<close>

datatype ('n, 'f) elem = Num 'n | Obj nat "('n, 'f) form"

fun is_Scalar :: "('n, 'f) elem \<Rightarrow> bool" where
  "is_Scalar (Num x) = False"
| "is_Scalar (Obj a s) = True"

text \<open>
  The exceptions: \<open>IndexError\<close> is the one the module raises itself, and the one a bad
  list index raises; \<open>TypeError\<close> is what a store into a tuple raises.
\<close>

datatype error = IndexError | TypeError

text \<open>
  The local state of \<open>_construct_attribute\<close>: the two lists it mutates, and the allocator
  of object identities (\<open>next_id\<close> is the identity the next new \<open>Scalar\<close> receives).
\<close>

record ('n, 'f) ctor_state =
  attribute :: "('n, 'f) elem list"
  elem_already_set :: "bool list"
  next_id :: nat

text \<open>The attributes of a constructed \<open>Model\<close>.\<close>

record ('n, 'f) model =
  L :: nat
  x_fields :: "('n, 'f) elem list"
  z_fields :: "('n, 'f) elem list"
  zz_couplers :: "('n, 'f) elem list"
  map_btwn_site_indices_and_unique_x_fields :: "nat list"

section \<open>The operations\<close>

subsection \<open>\<open>_determine_L\<close>\<close>

text \<open>
  \<open>None\<close> is \<open>None\<close>, a list is \<open>Some xs\<close>. The Python set \<open>candidate_Ls\<close> is a set of
  naturals; \<open>pop\<close> is only reached on a singleton, where it returns the element.
\<close>

definition determine_L ::
  "'a list option \<Rightarrow> 'a list option \<Rightarrow> 'a list option \<Rightarrow> error + nat" where
  "determine_L z_fields_in x_fields_in zz_couplers_in =
     (let candidate_Ls = {};
          candidate_Ls = (case z_fields_in of None \<Rightarrow> candidate_Ls
             | Some zs \<Rightarrow> if length zs \<noteq> 0 then insert (length zs) candidate_Ls
                          else candidate_Ls);
          candidate_Ls = (case x_fields_in of None \<Rightarrow> candidate_Ls
             | Some xs \<Rightarrow> if length xs \<noteq> 0 then insert (length xs) candidate_Ls
                          else candidate_Ls);
          candidate_Ls = (case zz_couplers_in of None \<Rightarrow> candidate_Ls
             | Some js \<Rightarrow> if length js \<noteq> 0 then insert (length js + 1) candidate_Ls
                          else candidate_Ls)
      in if card candidate_Ls = 0 then Inr 1
         else if card candidate_Ls \<noteq> 1 then Inl IndexError
         else Inr (the_elem candidate_Ls))"

subsection \<open>\<open>_construct_attribute\<close>\<close>

text \<open>
  The parameter \<open>eq\<close> is Python's \<open>==\<close> on list entries, \<open>eq a b\<close> for \<open>a == b\<close>: on two
  numbers it is the comparison of numbers, and as soon as an operand is a \<open>Scalar\<close> it is what
  the absent class \<open>Scalar\<close> defines (or the default comparison of identities).

  The inner loop \<open>for idx2 in range(idx1+1, array_size)\<close>, over the list of its indices.
  Reading \<open>ctor_param[idx2]\<close> raises past the end of the list, and so does the write to
  \<open>elem_already_set\<close>, a list of \<open>self.L\<close> flags that is written and never read.
\<close>

fun inner_loop ::
  "(('n, 'f) elem \<Rightarrow> ('n, 'f) elem \<Rightarrow> bool) \<Rightarrow> ('n, 'f) elem list \<Rightarrow> nat \<Rightarrow> nat list
     \<Rightarrow> ('n, 'f) ctor_state \<Rightarrow> error + ('n, 'f) ctor_state" where
  "inner_loop eq ctor_param idx1 [] s = Inr s"
| "inner_loop eq ctor_param idx1 (idx2 # rest) s =
     (if idx2 < length ctor_param \<and> idx1 < length ctor_param then
        if eq (ctor_param ! idx2) (ctor_param ! idx1) then
          if idx2 < length (attribute s) \<and> idx1 < length (attribute s)
             \<and> idx2 < length (elem_already_set s)
          then inner_loop eq ctor_param idx1 rest
                 (s\<lparr>attribute := (attribute s)[idx2 := attribute s ! idx1],
                    elem_already_set := (elem_already_set s)[idx2 := True]\<rparr>)
          else Inl IndexError
        else inner_loop eq ctor_param idx1 rest s
      else Inl IndexError)"

text \<open>
  The outer loop \<open>for idx1 in range(0, array_size)\<close>. \<open>Scalar(x)\<close> creates a new object:
  it takes the identity \<open>next_id\<close>, and the allocator moves on.
\<close>

fun outer_loop ::
  "(('n, 'f) elem \<Rightarrow> ('n, 'f) elem \<Rightarrow> bool) \<Rightarrow> ('n, 'f) elem list \<Rightarrow> nat \<Rightarrow> nat list
     \<Rightarrow> ('n, 'f) ctor_state \<Rightarrow> error + ('n, 'f) ctor_state" where
  "outer_loop eq ctor_param array_size [] s = Inr s"
| "outer_loop eq ctor_param array_size (idx1 # rest) s =
     (if idx1 < length (attribute s) then
        (let s1 = (case attribute s ! idx1 of
                     Num x \<Rightarrow> s\<lparr>attribute := (attribute s)[idx1 := Obj (next_id s) (Const x)],
                                next_id := Suc (next_id s)\<rparr>
                   | Obj a c \<Rightarrow> s)
         in case inner_loop eq ctor_param idx1 [idx1 + 1 ..< array_size] s1 of
              Inl e \<Rightarrow> Inl e
            | Inr s2 \<Rightarrow> outer_loop eq ctor_param array_size rest s2)
      else Inl IndexError)"

text \<open>
  \<open>_construct_attribute(self, ctor_param, array_size)\<close>; of \<open>self\<close> it reads \<open>self.L\<close>.
  It returns the list \<open>attribute\<close>, and the model returns the allocator with it.
\<close>

definition construct_attribute ::
  "(('n::zero, 'f) elem \<Rightarrow> ('n, 'f) elem \<Rightarrow> bool) \<Rightarrow> nat \<Rightarrow> nat
     \<Rightarrow> ('n, 'f) elem list option \<Rightarrow> nat \<Rightarrow> error + (('n, 'f) elem list \<times> nat)" where
  "construct_attribute eq self_L nxt ctor_param_in array_size =
     (let ctor_param = (case ctor_param_in of None \<Rightarrow> replicate array_size (Num 0)
                        | Some xs \<Rightarrow> xs);
          ctor_param = (if length ctor_param = 0 then replicate array_size (Num 0)
                        else ctor_param);
          s0 = \<lparr>attribute = ctor_param, elem_already_set = replicate self_L False,
                next_id = nxt\<rparr>
      in case outer_loop eq ctor_param array_size [0 ..< array_size] s0 of
           Inl e \<Rightarrow> Inl e
         | Inr s \<Rightarrow> Inr (attribute s, next_id s))"

subsection \<open>\<open>_calc_map_btwn_site_indices_and_unique_x_fields\<close>\<close>

fun map_inner_loop ::
  "('e \<Rightarrow> 'e \<Rightarrow> bool) \<Rightarrow> 'e list \<Rightarrow> nat \<Rightarrow> nat list \<Rightarrow> nat list \<Rightarrow> error + nat list" where
  "map_inner_loop eq xs idx1 [] result = Inr result"
| "map_inner_loop eq xs idx1 (idx2 # rest) result =
     (if idx2 < length xs \<and> idx1 < length xs then
        if eq (xs ! idx2) (xs ! idx1) then
          if idx1 < length result \<and> idx2 < length result
          then map_inner_loop eq xs idx1 rest (result[idx2 := result ! idx1])
          else Inl IndexError
        else map_inner_loop eq xs idx1 rest result
      else Inl IndexError)"

fun map_outer_loop ::
  "('e \<Rightarrow> 'e \<Rightarrow> bool) \<Rightarrow> 'e list \<Rightarrow> nat \<Rightarrow> nat list \<Rightarrow> nat list \<Rightarrow> error + nat list" where
  "map_outer_loop eq xs self_L [] result = Inr result"
| "map_outer_loop eq xs self_L (idx1 # rest) result =
     (case map_inner_loop eq xs idx1 [idx1 + 1 ..< self_L] result of
        Inl e \<Rightarrow> Inl e
      | Inr result' \<Rightarrow> map_outer_loop eq xs self_L rest result')"

definition calc_map_btwn_site_indices_and_unique_x_fields ::
  "('e \<Rightarrow> 'e \<Rightarrow> bool) \<Rightarrow> nat \<Rightarrow> 'e list \<Rightarrow> error + nat list" where
  "calc_map_btwn_site_indices_and_unique_x_fields eq self_L self_x_fields =
     map_outer_loop eq self_x_fields self_L [0 ..< self_L] [0 ..< self_L]"

subsection \<open>\<open>Model.__init__\<close>\<close>

text \<open>
  The constructor, in the order of the source: the length, then the x-fields, the z-fields
  and the couplers, then the map. \<open>nxt\<close> is the allocator at the call: every \<open>Scalar\<close> the
  caller built has an identity below it.
\<close>

definition Model ::
  "(('n::zero, 'f) elem \<Rightarrow> ('n, 'f) elem \<Rightarrow> bool) \<Rightarrow> nat
     \<Rightarrow> ('n, 'f) elem list option \<Rightarrow> ('n, 'f) elem list option \<Rightarrow> ('n, 'f) elem list option
     \<Rightarrow> error + ('n, 'f) model" where
  "Model eq nxt z_fields_in x_fields_in zz_couplers_in =
     (case determine_L z_fields_in x_fields_in zz_couplers_in of
        Inl e \<Rightarrow> Inl e
      | Inr len \<Rightarrow>
     (case construct_attribute eq len nxt x_fields_in len of
        Inl e \<Rightarrow> Inl e
      | Inr (xf, nxt1) \<Rightarrow>
     (case construct_attribute eq len nxt1 z_fields_in len of
        Inl e \<Rightarrow> Inl e
      | Inr (zf, nxt2) \<Rightarrow>
     (case construct_attribute eq len nxt2 zz_couplers_in (len - 1) of
        Inl e \<Rightarrow> Inl e
      | Inr (zzf, nxt3) \<Rightarrow>
     (case calc_map_btwn_site_indices_and_unique_x_fields eq len xf of
        Inl e \<Rightarrow> Inl e
      | Inr m \<Rightarrow>
          Inr \<lparr>L = len, x_fields = xf, z_fields = zf, zz_couplers = zzf,
               map_btwn_site_indices_and_unique_x_fields = m\<rparr>)))))"

subsection \<open>Inputs that are tuples\<close>

text \<open>
  The docstring of \<open>Model\<close> documents the three parameters as \<open>array_like\<close>. A Python list
  is what the functions above take. A tuple goes through the same statements: \<open>len\<close>,
  indexing and the comparison with \<open>None\<close> do on it what they do on a list, but
  \<open>ctor_param[:]\<close> is then a tuple, and a store into it raises \<open>TypeError\<close>.
\<close>

datatype 'a array_like = PyList "'a list" | PyTuple "'a list"

fun items :: "'a array_like \<Rightarrow> 'a list" where
  "items (PyList xs) = xs"
| "items (PyTuple xs) = xs"

text \<open>
  The loops of \<open>_construct_attribute\<close> when \<open>attribute\<close> is a tuple. Nothing can be stored,
  so \<open>attribute\<close> stays what \<open>ctor_param\<close> is; the first statement that would store raises
  (in the outer loop after \<open>Scalar(x)\<close> has been built, in the inner loop before the flag of
  \<open>elem_already_set\<close> is written).
\<close>

fun tuple_inner_loop ::
  "(('n, 'f) elem \<Rightarrow> ('n, 'f) elem \<Rightarrow> bool) \<Rightarrow> ('n, 'f) elem list \<Rightarrow> nat \<Rightarrow> nat list
     \<Rightarrow> error + unit" where
  "tuple_inner_loop eq ctor_param idx1 [] = Inr ()"
| "tuple_inner_loop eq ctor_param idx1 (idx2 # rest) =
     (if idx2 < length ctor_param \<and> idx1 < length ctor_param then
        if eq (ctor_param ! idx2) (ctor_param ! idx1) then Inl TypeError
        else tuple_inner_loop eq ctor_param idx1 rest
      else Inl IndexError)"

fun tuple_outer_loop ::
  "(('n, 'f) elem \<Rightarrow> ('n, 'f) elem \<Rightarrow> bool) \<Rightarrow> ('n, 'f) elem list \<Rightarrow> nat \<Rightarrow> nat list
     \<Rightarrow> error + unit" where
  "tuple_outer_loop eq ctor_param array_size [] = Inr ()"
| "tuple_outer_loop eq ctor_param array_size (idx1 # rest) =
     (if idx1 < length ctor_param then
        (case ctor_param ! idx1 of
           Num x \<Rightarrow> Inl TypeError
         | Obj a c \<Rightarrow>
             (case tuple_inner_loop eq ctor_param idx1 [idx1 + 1 ..< array_size] of
                Inl e \<Rightarrow> Inl e
              | Inr u \<Rightarrow> tuple_outer_loop eq ctor_param array_size rest))
      else Inl IndexError)"

text \<open>
  \<open>_construct_attribute\<close> on an \<open>array_like\<close> input. \<open>None\<close> and an empty input are replaced
  by a list of zeros, and a list is copied into a list: these are the cases of
  \<open>construct_attribute\<close>. A non-empty tuple is returned as it is when no store was needed;
  the model returns its entries.
\<close>

definition construct_attribute_array_like ::
  "(('n::zero, 'f) elem \<Rightarrow> ('n, 'f) elem \<Rightarrow> bool) \<Rightarrow> nat \<Rightarrow> nat
     \<Rightarrow> ('n, 'f) elem array_like option \<Rightarrow> nat \<Rightarrow> error + (('n, 'f) elem list \<times> nat)" where
  "construct_attribute_array_like eq self_L nxt ctor_param_in array_size =
     (case ctor_param_in of
        None \<Rightarrow> construct_attribute eq self_L nxt None array_size
      | Some (PyList xs) \<Rightarrow> construct_attribute eq self_L nxt (Some xs) array_size
      | Some (PyTuple xs) \<Rightarrow>
          if length xs = 0 then construct_attribute eq self_L nxt (Some []) array_size
          else (case tuple_outer_loop eq xs array_size [0 ..< array_size] of
                  Inl e \<Rightarrow> Inl e
                | Inr u \<Rightarrow> Inr (xs, nxt)))"

text \<open>The constructor on \<open>array_like\<close> inputs: the statements of \<open>Model.__init__\<close> again.\<close>

definition Model_array_like ::
  "(('n::zero, 'f) elem \<Rightarrow> ('n, 'f) elem \<Rightarrow> bool) \<Rightarrow> nat
     \<Rightarrow> ('n, 'f) elem array_like option \<Rightarrow> ('n, 'f) elem array_like option
     \<Rightarrow> ('n, 'f) elem array_like option \<Rightarrow> error + ('n, 'f) model" where
  "Model_array_like eq nxt z_fields_in x_fields_in zz_couplers_in =
     (case determine_L (map_option items z_fields_in) (map_option items x_fields_in)
             (map_option items zz_couplers_in) of
        Inl e \<Rightarrow> Inl e
      | Inr len \<Rightarrow>
     (case construct_attribute_array_like eq len nxt x_fields_in len of
        Inl e \<Rightarrow> Inl e
      | Inr (xf, nxt1) \<Rightarrow>
     (case construct_attribute_array_like eq len nxt1 z_fields_in len of
        Inl e \<Rightarrow> Inl e
      | Inr (zf, nxt2) \<Rightarrow>
     (case construct_attribute_array_like eq len nxt2 zz_couplers_in (len - 1) of
        Inl e \<Rightarrow> Inl e
      | Inr (zzf, nxt3) \<Rightarrow>
     (case calc_map_btwn_site_indices_and_unique_x_fields eq len xf of
        Inl e \<Rightarrow> Inl e
      | Inr m \<Rightarrow>
          Inr \<lparr>L = len, x_fields = xf, z_fields = zf, zz_couplers = zzf,
               map_btwn_site_indices_and_unique_x_fields = m\<rparr>)))))"

subsection \<open>A comparison by value\<close>

text \<open>
  Modelled from the spec: the comparison \<open>==\<close> of the absent class \<open>Scalar\<close>, which the spec
  describes as value equality. Two entries are equal by value when they stand for the same
  scalar: a plain number stands for the constant it would be wrapped into.
\<close>

fun value_of :: "('n, 'f) elem \<Rightarrow> ('n, 'f) form" where
  "value_of (Num x) = Const x"
| "value_of (Obj a s) = s"

definition value_eq :: "('n, 'f) elem \<Rightarrow> ('n, 'f) elem \<Rightarrow> bool" where
  "value_eq a b = (value_of a = value_of b)"

section \<open>Notions used in the statements and proofs\<close>

text \<open>The last index below \<open>k\<close> whose entry the entry at \<open>j\<close> is equal to: the last
  iteration of the outer loops, among the first \<open>k\<close>, that overwrites position \<open>j\<close>.\<close>

definition last_match :: "('e \<Rightarrow> 'e \<Rightarrow> bool) \<Rightarrow> 'e list \<Rightarrow> nat \<Rightarrow> nat \<Rightarrow> nat option" where
  "last_match eq c k j = find (\<lambda>i. eq (c ! j) (c ! i)) (rev [0..<k])"

text \<open>What one run of an inner loop over \<open>idx1 + 1 .. m - 1\<close> does to the list it
  updates: every position equal to position \<open>i\<close> receives the entry of position \<open>i\<close>.\<close>

definition map_step :: "('e \<Rightarrow> 'e \<Rightarrow> bool) \<Rightarrow> 'e list \<Rightarrow> nat \<Rightarrow> nat \<Rightarrow> 'a list \<Rightarrow> 'a list" where
  "map_step eq xs i m R =
     map (\<lambda>j. if i < j \<and> j < m \<and> eq (xs ! j) (xs ! i) then R ! i else R ! j) [0..<length R]"

text \<open>The invariant of the outer loop of the map, after \<open>k\<close> iterations.\<close>

definition map_inv :: "('e \<Rightarrow> 'e \<Rightarrow> bool) \<Rightarrow> 'e list \<Rightarrow> nat \<Rightarrow> nat list \<Rightarrow> bool" where
  "map_inv eq xs k R \<longleftrightarrow>
     length R = length xs \<and>
     (\<forall>j<length xs. R ! j = (case last_match eq xs (min k j) j of None \<Rightarrow> j | Some i \<Rightarrow> R ! i))"

text \<open>The normalized entry \<open>aj\<close> of a position that no earlier position is equal to: the
  given object when the raw entry \<open>cj\<close> is a \<open>Scalar\<close>, and otherwise a \<open>Scalar\<close> created
  here (its identity lies between the allocator before and after) holding the number.\<close>

definition leader_ok :: "nat \<Rightarrow> nat \<Rightarrow> ('n, 'f) elem \<Rightarrow> ('n, 'f) elem \<Rightarrow> bool" where
  "leader_ok nxt nxt' cj aj =
     (case cj of Obj a f \<Rightarrow> aj = Obj a f
      | Num x \<Rightarrow> \<exists>a. nxt \<le> a \<and> a < nxt' \<and> aj = Obj a (Const x))"

text \<open>The invariant of the outer loop of \<open>_construct_attribute\<close>, after \<open>k\<close> iterations.\<close>

definition attr_inv ::
  "(('n, 'f) elem \<Rightarrow> ('n, 'f) elem \<Rightarrow> bool) \<Rightarrow> ('n, 'f) elem list \<Rightarrow> nat \<Rightarrow> nat
     \<Rightarrow> ('n, 'f) ctor_state \<Rightarrow> bool" where
  "attr_inv eq c nxt k s \<longleftrightarrow>
     length (attribute s) = length c \<and> nxt \<le> next_id s \<and>
     (\<forall>j<length c. j < k \<longrightarrow> is_Scalar (attribute s ! j)) \<and>
     (\<forall>j<length c. case last_match eq c (min k j) j of
          Some i \<Rightarrow> attribute s ! j = attribute s ! i
        | None \<Rightarrow> if j < k then leader_ok nxt (next_id s) (c ! j) (attribute s ! j)
                  else attribute s ! j = c ! j)"

text \<open>The first statement of the outer loop's body: wrap the entry unless it is a \<open>Scalar\<close>.\<close>

definition wrap_at :: "nat \<Rightarrow> ('n, 'f) ctor_state \<Rightarrow> ('n, 'f) ctor_state" where
  "wrap_at i s = (case attribute s ! i of
                     Num x \<Rightarrow> s\<lparr>attribute := (attribute s)[i := Obj (next_id s) (Const x)],
                                next_id := Suc (next_id s)\<rparr>
                   | Obj a c \<Rightarrow> s)"

text \<open>The list \<open>_construct_attribute\<close> works on: the given one, or zeros when it is absent
  or empty.\<close>

fun effective :: "nat \<Rightarrow> ('n::zero, 'f) elem list option \<Rightarrow> ('n, 'f) elem list" where
  "effective n None = replicate n (Num 0)"
| "effective n (Some xs) = (if length xs = 0 then replicate n (Num 0) else xs)"

text \<open>What \<open>_construct_attribute\<close> returns for the list \<open>c\<close>: every entry is a \<open>Scalar\<close>,
  a position takes the entry of the last earlier position it is equal to, and a position
  equal to none keeps or receives its own object.\<close>

definition normalized ::
  "(('n, 'f) elem \<Rightarrow> ('n, 'f) elem \<Rightarrow> bool) \<Rightarrow> ('n, 'f) elem list \<Rightarrow> nat \<Rightarrow> nat
     \<Rightarrow> ('n, 'f) elem list \<Rightarrow> bool" where
  "normalized eq c nxt nxt' A \<longleftrightarrow>
     length A = length c \<and> nxt \<le> nxt' \<and>
     (\<forall>j<length c. is_Scalar (A ! j) \<and>
        (case last_match eq c j j of
           Some i \<Rightarrow> A ! j = A ! i
         | None \<Rightarrow> leader_ok nxt nxt' (c ! j) (A ! j)))"

text \<open>The chain lengths an input implies, in the words of the spec: none when the array
  is absent or empty, and otherwise its length plus \<open>d\<close> (0 for the fields, 1 for the
  couplers).\<close>

definition implied_length :: "nat \<Rightarrow> 'a list option \<Rightarrow> nat set" where
  "implied_length d xs_in =
     (case xs_in of None \<Rightarrow> {} | Some xs \<Rightarrow> if length xs \<noteq> 0 then {length xs + d} else {})"

text \<open>The set of the distinct chain lengths the three inputs imply.\<close>

definition implied_lengths ::
  "'a list option \<Rightarrow> 'a list option \<Rightarrow> 'a list option \<Rightarrow> nat set" where
  "implied_lengths z_fields_in x_fields_in zz_couplers_in =
     implied_length 0 z_fields_in \<union> implied_length 0 x_fields_in
       \<union> implied_length 1 zz_couplers_in"

text \<open>An input is present when it is a non-empty array.\<close>

fun present :: "'a list option \<Rightarrow> bool" where
  "present None = False"
| "present (Some xs) = (length xs \<noteq> 0)"

text \<open>What the constructor establishes of the \<open>Model\<close> it returns.\<close>

definition model_ok ::
  "(('n::zero, 'f) elem \<Rightarrow> ('n, 'f) elem \<Rightarrow> bool) \<Rightarrow> nat
     \<Rightarrow> ('n, 'f) elem list option \<Rightarrow> ('n, 'f) elem list option \<Rightarrow> ('n, 'f) elem list option
     \<Rightarrow> ('n, 'f) model \<Rightarrow> bool" where
  "model_ok eq nxt z x zz m \<longleftrightarrow>
     determine_L z x zz = Inr (L m) \<and>
     (\<exists>n1 n2 n3.
        normalized eq (effective (L m) x) nxt n1 (x_fields m) \<and>
        normalized eq (effective (L m) z) n1 n2 (z_fields m) \<and>
        normalized eq (effective (L m - 1) zz) n2 n3 (zz_couplers m)) \<and>
     length (map_btwn_site_indices_and_unique_x_fields m) = L m \<and>
     (\<forall>j<L m. map_btwn_site_indices_and_unique_x_fields m ! j =
        (case last_match eq (x_fields m) j j of None \<Rightarrow> j
         | Some i \<Rightarrow> map_btwn_site_indices_and_unique_x_fields m ! i))"

text \<open>The object that stands for a raw entry of its own: the entry itself when it is a
  \<open>Scalar\<close>, and otherwise a \<open>Scalar\<close> created by the constructor (identity from \<open>nxt\<close> on)
  holding the number.\<close>

fun own_object :: "nat \<Rightarrow> ('n, 'f) elem \<Rightarrow> ('n, 'f) elem \<Rightarrow> bool" where
  "own_object nxt (Obj a s) e = (e = Obj a s)"
| "own_object nxt (Num v) (Obj a s) = (nxt \<le> a \<and> s = Const v)"
| "own_object nxt (Num v) (Num w) = False"

text \<open>Sharing between a raw array and its normalized attribute: two equal raw entries
  give one object, and it is the object of the first entry equal to them.\<close>

definition shares_equal_entries ::
  "(('n, 'f) elem \<Rightarrow> ('n, 'f) elem \<Rightarrow> bool) \<Rightarrow> nat \<Rightarrow> ('n, 'f) elem list
     \<Rightarrow> ('n, 'f) elem list \<Rightarrow> bool" where
  "shares_equal_entries eq nxt raw out \<longleftrightarrow>
     (\<forall>i j. i < j \<and> j < length raw \<and> eq (raw ! i) (raw ! j) \<longrightarrow> out ! j = out ! i) \<and>
     (\<forall>j f. j < length raw \<and> find (\<lambda>k. eq (raw ! j) (raw ! k)) [0..<j] = Some f \<longrightarrow>
        out ! j = out ! f \<and> own_object nxt (raw ! f) (out ! f))"

text \<open>A list of \<open>n\<close> time-independent zero scalars.\<close>

definition zero_array :: "nat \<Rightarrow> ('n::zero, 'f) elem list \<Rightarrow> bool" where
  "zero_array n xs \<longleftrightarrow>
     length xs = n \<and> list_all (\<lambda>e. is_Scalar e \<and> value_of e = Const 0) xs"

text \<open>The comparison is reflexive, symmetric and transitive on \<open>Scalar\<close> objects.\<close>

definition equivalence_on_Scalars :: "(('n, 'f) elem \<Rightarrow> ('n, 'f) elem \<Rightarrow> bool) \<Rightarrow> bool" where
  "equivalence_on_Scalars eq \<longleftrightarrow>
     (\<forall>a. is_Scalar a \<longrightarrow> eq a a) \<and>
     (\<forall>a b. is_Scalar a \<and> is_Scalar b \<and> eq a b \<longrightarrow> eq b a) \<and>
     (\<forall>a b c. is_Scalar a \<and> is_Scalar b \<and> is_Scalar c \<and> eq a b \<and> eq b c \<longrightarrow> eq a c)"

text \<open>Every raw entry that is a \<open>Scalar\<close> comes out as a \<open>Scalar\<close> with the same content,
  and as the same object when no earlier entry is equal to it.\<close>

definition keeps_value ::
  "(('n, 'f) elem \<Rightarrow> ('n, 'f) elem \<Rightarrow> bool) \<Rightarrow> ('n, 'f) elem list
     \<Rightarrow> ('n, 'f) elem list \<Rightarrow> bool" where
  "keeps_value eq raw out \<longleftrightarrow>
     (\<forall>j a s. j < length raw \<and> raw ! j = Obj a s \<longrightarrow>
        is_Scalar (out ! j) \<and> value_of (out ! j) = s \<and>
        ((\<forall>i<j. \<not> eq (raw ! j) (raw ! i)) \<longrightarrow> out ! j = Obj a s))"

text \<open>The state of \<open>_construct_attribute(c, len(c))\<close> when the outer loop reaches
  \<open>idx1 = j\<close>.\<close>

definition state_before ::
  "(('n, 'f) elem \<Rightarrow> ('n, 'f) elem \<Rightarrow> bool) \<Rightarrow> nat \<Rightarrow> nat \<Rightarrow> ('n, 'f) elem list \<Rightarrow> nat
     \<Rightarrow> error + ('n, 'f) ctor_state" where
  "state_before eq self_L nxt c j =
     outer_loop eq c (length c) [0 ..< j]
       \<lparr>attribute = c, elem_already_set = replicate self_L False, next_id = nxt\<rparr>"

text \<open>A number that follows a \<open>Scalar\<close> it is equal to takes the normalized entry of that
  \<open>Scalar\<close>'s position, which is the \<open>Scalar\<close> itself when nothing before is equal to it;
  and the loop finds a \<open>Scalar\<close> at the number's position when it gets there.\<close>

definition shares_with_Scalar ::
  "(('n, 'f) elem \<Rightarrow> ('n, 'f) elem \<Rightarrow> bool) \<Rightarrow> nat \<Rightarrow> ('n, 'f) elem list
     \<Rightarrow> ('n, 'f) elem list \<Rightarrow> bool" where
  "shares_with_Scalar eq self_L raw out \<longleftrightarrow>
     (\<forall>i j a s v. i < j \<and> j < length raw \<and> raw ! i = Obj a s \<and> raw ! j = Num v
          \<and> eq (raw ! j) (raw ! i) \<longrightarrow>
        out ! j = out ! i \<and>
        ((\<forall>k<i. \<not> eq (raw ! i) (raw ! k)) \<longrightarrow> out ! j = Obj a s) \<and>
        (\<forall>n. \<exists>st. state_before eq self_L n raw j = Inr st \<and> is_Scalar (attribute st ! j)))"

text \<open>A comparison that is not transitive: two numbers are equal when they differ by at
  most one, and nothing else is equal.\<close>

fun near_eq :: "(int, 'f) elem \<Rightarrow> (int, 'f) elem \<Rightarrow> bool" where
  "near_eq (Num a) (Num b) = (\<bar>a - b\<bar> \<le> 1)"
| "near_eq (Obj a (Const u)) (Obj b (Const v)) = (\<bar>u - v\<bar> \<le> 1)"
| "near_eq a b = False"

section \<open>The loops and what they establish\<close>

subsection \<open>The last earlier position equal to a position\<close>

lemma last_match_0: "last_match eq c 0 j = None"
  by (simp add: last_match_def)

lemma last_match_Suc:
  "last_match eq c (Suc k) j = (if eq (c ! j) (c ! k) then Some k else last_match eq c k j)"
  by (simp add: last_match_def)

lemma last_match_SomeD:
  "last_match eq c k j = Some i \<Longrightarrow>
     i < k \<and> eq (c ! j) (c ! i) \<and> (\<forall>m. i < m \<and> m < k \<longrightarrow> \<not> eq (c ! j) (c ! m))"
proof (induction k)
  case 0
  then show ?case by (simp add: last_match_0)
next
  case (Suc k)
  show ?case
  proof (cases "eq (c ! j) (c ! k)")
    case True
    with Suc.prems have "i = k" by (simp add: last_match_Suc)
    with True show ?thesis by auto
  next
    case False
    with Suc.prems have "last_match eq c k j = Some i" by (simp add: last_match_Suc)
    from Suc.IH [OF this] False show ?thesis
      by (metis less_Suc_eq)
  qed
qed

lemma last_match_NoneD:
  "last_match eq c k j = None \<Longrightarrow> i < k \<Longrightarrow> \<not> eq (c ! j) (c ! i)"
  by (induction k) (auto simp: last_match_Suc less_Suc_eq split: if_splits)

subsection \<open>The loops of the map\<close>

lemma map_inner_loop_append:
  "map_inner_loop eq xs i (js @ ks) R =
     (case map_inner_loop eq xs i js R of Inl e \<Rightarrow> Inl e
      | Inr R' \<Rightarrow> map_inner_loop eq xs i ks R')"
  by (induction js arbitrary: R) auto

lemma map_outer_loop_append:
  "map_outer_loop eq xs n (js @ ks) R =
     (case map_outer_loop eq xs n js R of Inl e \<Rightarrow> Inl e
      | Inr R' \<Rightarrow> map_outer_loop eq xs n ks R')"
  by (induction js arbitrary: R) (auto split: sum.splits)

lemma map_inner_loop_upt:
  assumes "i < length xs" "length R = length xs" "m \<le> length xs"
  shows "map_inner_loop eq xs i [Suc i..<m] R = Inr (map_step eq xs i m R)"
  using assms(3)
proof (induction m)
  case 0
  then show ?case by (simp add: map_step_def map_nth)
next
  case (Suc m)
  show ?case
  proof (cases "i < m")
    case False
    then have "[Suc i..<Suc m] = []" by simp
    moreover from False have "map_step eq xs i (Suc m) R = R"
      by (auto simp: map_step_def intro!: nth_equalityI)
    ultimately show ?thesis by simp
  next
    case True
    then have upt: "[Suc i..<Suc m] = [Suc i..<m] @ [m]" by simp
    from Suc have IH: "map_inner_loop eq xs i [Suc i..<m] R = Inr (map_step eq xs i m R)"
      by simp
    have len: "length (map_step eq xs i m R) = length xs"
      using assms by (simp add: map_step_def)
    have ati: "map_step eq xs i m R ! i = R ! i"
      using assms by (simp add: map_step_def)
    have upd: "eq (xs ! m) (xs ! i) \<Longrightarrow>
        (map_step eq xs i m R)[m := R ! i] = map_step eq xs i (Suc m) R"
      using assms Suc.prems True
      by (auto simp: map_step_def nth_list_update less_Suc_eq intro!: nth_equalityI)
    have same: "\<not> eq (xs ! m) (xs ! i) \<Longrightarrow>
        map_step eq xs i m R = map_step eq xs i (Suc m) R"
      by (auto simp: map_step_def less_Suc_eq)
    show ?thesis
      using Suc.prems assms True
      by (simp add: upt map_inner_loop_append IH len ati upd same del: upt_Suc)
  qed
qed

lemma map_inv_step:
  assumes inv: "map_inv eq xs k R" and k: "k < length xs"
  shows "map_inv eq xs (Suc k) (map_step eq xs k (length xs) R)"
proof -
  let ?n = "length xs"
  let ?R' = "map_step eq xs k ?n R"
  from inv have len: "length R = ?n" by (simp add: map_inv_def)
  have nth': "\<And>j. j < ?n \<Longrightarrow> ?R' ! j = (if k < j \<and> eq (xs ! j) (xs ! k) then R ! k else R ! j)"
    using len by (simp add: map_step_def)
  have old: "\<And>j. j \<le> k \<Longrightarrow> ?R' ! j = R ! j"
    using k nth' by simp
  have "?R' ! j = (case last_match eq xs (min (Suc k) j) j of None \<Rightarrow> j | Some i \<Rightarrow> ?R' ! i)"
    if j: "j < ?n" for j
  proof (cases "j \<le> k")
    case True
    then have m: "min (Suc k) j = min k j" by simp
    from inv j have Rj: "R ! j = (case last_match eq xs (min k j) j of None \<Rightarrow> j | Some i \<Rightarrow> R ! i)"
      by (simp add: map_inv_def)
    show ?thesis
    proof (cases "last_match eq xs (min k j) j")
      case None
      with Rj old [OF True] m show ?thesis by simp
    next
      case (Some i)
      from last_match_SomeD [OF Some] True have "i \<le> k" by simp
      with Rj old [OF True] old [of i] m Some show ?thesis by simp
    qed
  next
    case False
    then have kj: "k < j" by simp
    then have m: "min (Suc k) j = Suc k" "min k j = k" by simp_all
    show ?thesis
    proof (cases "eq (xs ! j) (xs ! k)")
      case True
      with nth' [OF j] kj old [of k] show ?thesis
        by (simp add: m last_match_Suc)
    next
      case neq: False
      from inv j m have Rj: "R ! j = (case last_match eq xs k j of None \<Rightarrow> j | Some i \<Rightarrow> R ! i)"
        by (simp add: map_inv_def)
      show ?thesis
      proof (cases "last_match eq xs k j")
        case None
        with Rj nth' [OF j] neq show ?thesis by (simp add: m last_match_Suc)
      next
        case (Some i)
        from last_match_SomeD [OF Some] have "i \<le> k" by simp
        with Rj nth' [OF j] neq old [of i] Some show ?thesis by (simp add: m last_match_Suc)
      qed
    qed
  qed
  moreover have "length ?R' = ?n" using len by (simp add: map_step_def)
  ultimately show ?thesis by (simp add: map_inv_def)
qed

lemma map_outer_loop_upt:
  "k \<le> length xs \<Longrightarrow>
     \<exists>R. map_outer_loop eq xs (length xs) [0..<k] [0..<length xs] = Inr R \<and> map_inv eq xs k R"
proof (induction k)
  case 0
  show ?case by (simp add: map_inv_def last_match_0)
next
  case (Suc k)
  then obtain R where R: "map_outer_loop eq xs (length xs) [0..<k] [0..<length xs] = Inr R"
    and inv: "map_inv eq xs k R" by auto
  from inv have len: "length R = length xs" by (simp add: map_inv_def)
  from Suc.prems have k: "k < length xs" by simp
  have "map_outer_loop eq xs (length xs) [0..<Suc k] [0..<length xs]
          = Inr (map_step eq xs k (length xs) R)"
    using k len by (simp add: map_outer_loop_append R map_inner_loop_upt)
  with map_inv_step [OF inv k] show ?case by simp
qed

lemma calc_map_inv:
  "\<exists>R. calc_map_btwn_site_indices_and_unique_x_fields eq (length xs) xs = Inr R \<and>
       length R = length xs \<and>
       (\<forall>j<length xs. R ! j = (case last_match eq xs j j of None \<Rightarrow> j | Some i \<Rightarrow> R ! i))"
  using map_outer_loop_upt [of "length xs" xs eq]
  by (auto simp: calc_map_btwn_site_indices_and_unique_x_fields_def map_inv_def)

subsection \<open>The loops of \<open>_construct_attribute\<close>\<close>

lemma inner_loop_append:
  "inner_loop eq c i (js @ ks) s =
     (case inner_loop eq c i js s of Inl e \<Rightarrow> Inl e | Inr s' \<Rightarrow> inner_loop eq c i ks s')"
  by (induction js arbitrary: s) auto

lemma outer_loop_append:
  "outer_loop eq c n (js @ ks) s =
     (case outer_loop eq c n js s of Inl e \<Rightarrow> Inl e | Inr s' \<Rightarrow> outer_loop eq c n ks s')"
  by (induction js arbitrary: s) (auto simp: Let_def split: sum.splits)

lemma inner_loop_upt:
  assumes "i < length c" "length (attribute s) = length c" "m \<le> length c"
    and "m \<le> length (elem_already_set s)"
  shows "\<exists>s'. inner_loop eq c i [Suc i..<m] s = Inr s' \<and>
           attribute s' = map_step eq c i m (attribute s) \<and>
           next_id s' = next_id s \<and>
           length (elem_already_set s') = length (elem_already_set s)"
  using assms(3,4)
proof (induction m)
  case 0
  then show ?case by (simp add: map_step_def map_nth)
next
  case (Suc m)
  show ?case
  proof (cases "i < m")
    case False
    then have "[Suc i..<Suc m] = []" by simp
    moreover from False have "map_step eq c i (Suc m) (attribute s) = attribute s"
      by (auto simp: map_step_def intro!: nth_equalityI)
    ultimately show ?thesis by simp
  next
    case True
    then have upt: "[Suc i..<Suc m] = [Suc i..<m] @ [m]" by simp
    from Suc obtain s1 where s1: "inner_loop eq c i [Suc i..<m] s = Inr s1"
      and a1: "attribute s1 = map_step eq c i m (attribute s)"
      and n1: "next_id s1 = next_id s"
      and e1: "length (elem_already_set s1) = length (elem_already_set s)"
      by auto
    have len: "length (attribute s1) = length c"
      using assms a1 by (simp add: map_step_def)
    have ati: "attribute s1 ! i = attribute s ! i"
      using assms a1 by (simp add: map_step_def)
    have upd: "eq (c ! m) (c ! i) \<Longrightarrow>
        (attribute s1)[m := attribute s ! i] = map_step eq c i (Suc m) (attribute s)"
      using assms Suc.prems True a1
      by (auto simp: map_step_def nth_list_update less_Suc_eq intro!: nth_equalityI)
    have same: "\<not> eq (c ! m) (c ! i) \<Longrightarrow>
        attribute s1 = map_step eq c i (Suc m) (attribute s)"
      using a1 by (auto simp: map_step_def less_Suc_eq)
    show ?thesis
      using Suc.prems assms True n1 e1
      by (simp add: upt inner_loop_append s1 len ati upd same del: upt_Suc)
  qed
qed

lemma leader_ok_mono: "leader_ok nxt n1 cj aj \<Longrightarrow> n1 \<le> n2 \<Longrightarrow> leader_ok nxt n2 cj aj"
  by (cases cj) (auto simp: leader_ok_def)

lemma leader_ok_Scalar: "leader_ok nxt n1 cj aj \<Longrightarrow> is_Scalar aj"
  by (cases cj) (auto simp: leader_ok_def)

lemma wrap_at_simps:
  "length (attribute (wrap_at i s)) = length (attribute s)"
  "elem_already_set (wrap_at i s) = elem_already_set s"
  "j \<noteq> i \<Longrightarrow> attribute (wrap_at i s) ! j = attribute s ! j"
  "next_id s \<le> next_id (wrap_at i s)"
  by (auto simp: wrap_at_def split: elem.splits)

lemma wrap_at_Scalar:
  "is_Scalar (attribute s ! i) \<Longrightarrow> wrap_at i s = s"
  by (cases "attribute s ! i") (auto simp: wrap_at_def)

lemma wrap_at_leader:
  "i < length (attribute s) \<Longrightarrow> nxt \<le> next_id s \<Longrightarrow>
     leader_ok nxt (next_id (wrap_at i s)) (attribute s ! i) (attribute (wrap_at i s) ! i)"
  by (cases "attribute s ! i") (auto simp: wrap_at_def leader_ok_def)

lemma attr_inv_step:
  assumes inv: "attr_inv eq c nxt k s" and k: "k < length c"
    and s2: "attribute s2 = map_step eq c k (length c) (attribute (wrap_at k s))"
    and n2: "next_id s2 = next_id (wrap_at k s)"
  shows "attr_inv eq c nxt (Suc k) s2"
proof -
  let ?n = "length c"
  let ?A = "attribute s" and ?A1 = "attribute (wrap_at k s)" and ?A2 = "attribute s2"
  from inv have len: "length ?A = ?n" and nx: "nxt \<le> next_id s"
    and sc: "\<And>j. j < k \<Longrightarrow> is_Scalar (?A ! j)"
    using k by (simp_all add: attr_inv_def)
  have invj: "case last_match eq c (min k j) j of
          Some i \<Rightarrow> ?A ! j = ?A ! i
        | None \<Rightarrow> if j < k then leader_ok nxt (next_id s) (c ! j) (?A ! j)
                  else ?A ! j = c ! j" if "j < ?n" for j
    using inv that by (simp add: attr_inv_def)
  have len1: "length ?A1 = ?n" using len by (simp add: wrap_at_simps)
  have mono: "next_id s \<le> next_id s2" using n2 by (simp add: wrap_at_simps)
  have nth2: "\<And>j. j < ?n \<Longrightarrow> ?A2 ! j = (if k < j \<and> eq (c ! j) (c ! k) then ?A1 ! k else ?A1 ! j)"
    using len1 s2 by (simp add: map_step_def)
  have old: "\<And>j. j < k \<Longrightarrow> ?A2 ! j = ?A ! j"
    using k nth2 by (simp add: wrap_at_simps)
  have atk: "?A2 ! k = ?A1 ! k" using k nth2 by simp
  have later: "\<And>j. k < j \<Longrightarrow> j < ?n \<Longrightarrow> \<not> eq (c ! j) (c ! k) \<Longrightarrow> ?A2 ! j = ?A ! j"
    using nth2 by (simp add: wrap_at_simps)
  have main: "case last_match eq c (min (Suc k) j) j of
          Some i \<Rightarrow> ?A2 ! j = ?A2 ! i
        | None \<Rightarrow> if j < Suc k then leader_ok nxt (next_id s2) (c ! j) (?A2 ! j)
                  else ?A2 ! j = c ! j" if j: "j < ?n" for j
  proof -
    consider "j < k" | "j = k" | "k < j" by arith
    then show ?thesis
    proof cases
      case 1
      then have m: "min (Suc k) j = j" "min k j = j" by simp_all
      show ?thesis
      proof (cases "last_match eq c j j")
        case None
        with invj [OF j] 1 m have "leader_ok nxt (next_id s) (c ! j) (?A ! j)" by simp
        from leader_ok_mono [OF this mono] None 1 old [OF 1] show ?thesis by (simp add: m)
      next
        case (Some i)
        from last_match_SomeD [OF Some] 1 have "i < k" by simp
        with invj [OF j] Some old [OF 1] old [of i] show ?thesis by (simp add: m)
      qed
    next
      case 2
      then have m: "min (Suc k) j = k" "min k j = k" by simp_all
      show ?thesis
      proof (cases "last_match eq c k k")
        case None
        with invj [OF j] 2 m have "?A ! k = c ! k" by simp
        with wrap_at_leader [of k s nxt] len k nx n2
        have "leader_ok nxt (next_id s2) (c ! k) (?A1 ! k)" by simp
        with None 2 atk show ?thesis by (simp add: m)
      next
        case (Some i)
        from last_match_SomeD [OF Some] have ik: "i < k" by simp
        with invj [OF j] Some 2 m have "?A ! k = ?A ! i" by simp
        with sc [OF ik] have "wrap_at k s = s" by (simp add: wrap_at_Scalar)
        with \<open>?A ! k = ?A ! i\<close> atk old [OF ik] Some 2 show ?thesis by (simp add: m)
      qed
    next
      case 3
      then have m: "min (Suc k) j = Suc k" "min k j = k" by simp_all
      show ?thesis
      proof (cases "eq (c ! j) (c ! k)")
        case True
        with nth2 [OF j] 3 atk show ?thesis by (simp add: m last_match_Suc)
      next
        case neq: False
        show ?thesis
        proof (cases "last_match eq c k j")
          case None
          with invj [OF j] 3 m later [OF 3 j neq] neq show ?thesis
            by (simp add: last_match_Suc)
        next
          case (Some i)
          from last_match_SomeD [OF Some] have "i < k" by simp
          with invj [OF j] 3 m later [OF 3 j neq] neq old [of i] Some show ?thesis
            by (simp add: last_match_Suc)
        qed
      qed
    qed
  qed
  have sc2: "is_Scalar (?A2 ! j)" if j: "j < Suc k" for j
  proof (cases "j < k")
    case True
    with sc old show ?thesis by simp
  next
    case False
    with j have jk: "j = k" by simp
    show ?thesis
    proof (cases "?A ! k")
      case (Num x)
      then show ?thesis using atk jk len k by (simp add: wrap_at_def)
    next
      case (Obj a f)
      then show ?thesis using atk jk by (simp add: wrap_at_def)
    qed
  qed
  have "length ?A2 = ?n" using s2 len1 by (simp add: map_step_def)
  moreover have "nxt \<le> next_id s2" using nx mono by simp
  ultimately show ?thesis using main sc2 by (simp add: attr_inv_def)
qed

lemma outer_loop_upt:
  assumes "attribute s0 = c" "length c \<le> length (elem_already_set s0)"
  shows "k \<le> length c \<Longrightarrow>
     \<exists>s. outer_loop eq c (length c) [0..<k] s0 = Inr s \<and> attr_inv eq c (next_id s0) k s \<and>
         length (elem_already_set s) = length (elem_already_set s0)"
proof (induction k)
  case 0
  show ?case using assms by (simp add: attr_inv_def last_match_0)
next
  case (Suc k)
  then obtain s where s: "outer_loop eq c (length c) [0..<k] s0 = Inr s"
    and inv: "attr_inv eq c (next_id s0) k s"
    and es: "length (elem_already_set s) = length (elem_already_set s0)" by auto
  from Suc.prems have k: "k < length c" by simp
  from inv have len: "length (attribute s) = length c" by (simp add: attr_inv_def)
  let ?s1 = "wrap_at k s"
  have "length (attribute ?s1) = length c" "length c \<le> length (elem_already_set ?s1)"
    using len es assms by (simp_all add: wrap_at_simps)
  from inner_loop_upt [OF k this(1) order_refl this(2), of eq]
  obtain s2 where s2: "inner_loop eq c k [Suc k..<length c] ?s1 = Inr s2"
    and a2: "attribute s2 = map_step eq c k (length c) (attribute ?s1)"
    and n2: "next_id s2 = next_id ?s1"
    and e2: "length (elem_already_set s2) = length (elem_already_set ?s1)" by blast
  have "outer_loop eq c (length c) [0..<Suc k] s0 = Inr s2"
    using k len s2 by (simp add: outer_loop_append s wrap_at_def [symmetric])
  with attr_inv_step [OF inv k a2 n2] e2 es show ?case by (simp add: wrap_at_simps)
qed

lemma construct_attribute_normalized:
  assumes "length (effective n cin) = n" "n \<le> self_L"
  shows "\<exists>A nxt'. construct_attribute eq self_L nxt cin n = Inr (A, nxt') \<and>
           normalized eq (effective n cin) nxt nxt' A"
proof -
  let ?c = "effective n cin"
  let ?s0 = "\<lparr>attribute = ?c, elem_already_set = replicate self_L False, next_id = nxt\<rparr>"
  have "attribute ?s0 = ?c" "length ?c \<le> length (elem_already_set ?s0)"
    using assms by simp_all
  from outer_loop_upt [OF this order_refl, of eq]
  obtain s where s: "outer_loop eq ?c (length ?c) [0..<length ?c] ?s0 = Inr s"
    and inv: "attr_inv eq ?c nxt (length ?c) s" by auto
  have "construct_attribute eq self_L nxt cin n = Inr (attribute s, next_id s)"
    using s assms(1) by (cases cin) (auto simp: construct_attribute_def Let_def)
  moreover have "normalized eq ?c nxt (next_id s) (attribute s)"
    using inv by (auto simp: attr_inv_def normalized_def split: option.splits)
  ultimately show ?thesis by blast
qed

subsection \<open>What a normalized list satisfies\<close>

lemma find_upt_Some_iff:
  "find P [0..<n] = Some f \<longleftrightarrow> f < n \<and> P f \<and> (\<forall>k<f. \<not> P k)"
  by (auto simp: find_Some_iff)

lemma last_match_NoneI:
  "(\<And>i. i < k \<Longrightarrow> \<not> eq (c ! j) (c ! i)) \<Longrightarrow> last_match eq c k j = None"
  by (induction k) (simp_all add: last_match_0 last_match_Suc)

lemma normalizedD:
  "normalized eq c nxt nxt' A \<Longrightarrow> j < length c \<Longrightarrow>
     (case last_match eq c j j of
        Some i \<Rightarrow> A ! j = A ! i
      | None \<Rightarrow> leader_ok nxt nxt' (c ! j) (A ! j))"
  by (simp add: normalized_def)

lemma normalized_first:
  assumes norm: "normalized eq c nxt nxt' A" and sym: "symp eq" and trans: "transp eq"
  shows "j < length c \<Longrightarrow> find (\<lambda>k. eq (c ! j) (c ! k)) [0..<j] = Some f \<Longrightarrow>
           A ! j = A ! f \<and> leader_ok nxt nxt' (c ! f) (A ! f)"
proof (induction j rule: less_induct)
  case (less j)
  from less.prems(2) have f: "f < j" "eq (c ! j) (c ! f)" and least: "\<And>k. k < f \<Longrightarrow> \<not> eq (c ! j) (c ! k)"
    by (simp_all add: find_upt_Some_iff)
  from norm less.prems(1) have nj: "case last_match eq c j j of
           Some i \<Rightarrow> A ! j = A ! i
         | None \<Rightarrow> leader_ok nxt nxt' (c ! j) (A ! j)"
    by (simp add: normalized_def)
  show ?case
  proof (cases "last_match eq c j j")
    case None
    from last_match_NoneD [OF None f(1)] f(2) show ?thesis by simp
  next
    case (Some i)
    from last_match_SomeD [OF Some] have i: "i < j" "eq (c ! j) (c ! i)"
      and last: "\<And>m. i < m \<Longrightarrow> m < j \<Longrightarrow> \<not> eq (c ! j) (c ! m)" by auto
    from nj Some have Aj: "A ! j = A ! i" by simp
    from last [of f] f have fi: "f \<le> i" by (meson not_le_imp_less)
    have nof: "\<not> eq (c ! f) (c ! k)" if "k < f" for k
      using transpD [OF trans f(2), of "c ! k"] least [OF that] by blast
    show ?thesis
    proof (cases "f = i")
      case True
      have "last_match eq c f f = None"
        using nof by (rule last_match_NoneI)
      with normalizedD [OF norm, of f] f(1) less.prems(1)
      have "leader_ok nxt nxt' (c ! f) (A ! f)" by simp
      with Aj True show ?thesis by simp
    next
      case False
      with fi have fi': "f < i" by simp
      have "eq (c ! i) (c ! j)" using sympD [OF sym i(2)] .
      from transpD [OF trans this f(2)] have e: "eq (c ! i) (c ! f)" .
      have "\<not> eq (c ! i) (c ! k)" if "k < f" for k
        using transpD [OF trans i(2), of "c ! k"] least [OF that] by blast
      with e fi' have "find (\<lambda>k. eq (c ! i) (c ! k)) [0..<i] = Some f"
        by (simp add: find_upt_Some_iff)
      from less.IH [OF i(1) _ this] i(1) less.prems(1) Aj show ?thesis by simp
    qed
  qed
qed

lemma normalized_shared:
  assumes norm: "normalized eq c nxt nxt' A" and sym: "symp eq" and trans: "transp eq"
    and ij: "i < j" "j < length c" and e: "eq (c ! i) (c ! j)"
  shows "A ! j = A ! i"
proof -
  have e': "eq (c ! j) (c ! i)" using sympD [OF sym e] .
  have "\<exists>f. find (\<lambda>k. eq (c ! j) (c ! k)) [0..<j] = Some f"
    using ij e' by (cases "find (\<lambda>k. eq (c ! j) (c ! k)) [0..<j]") (auto simp: find_None_iff)
  then obtain f where f: "find (\<lambda>k. eq (c ! j) (c ! k)) [0..<j] = Some f" ..
  then have fj: "f < j" "eq (c ! j) (c ! f)" and least: "\<And>k. k < f \<Longrightarrow> \<not> eq (c ! j) (c ! k)"
    by (simp_all add: find_upt_Some_iff)
  from normalized_first [OF norm sym trans ij(2) f] have Aj: "A ! j = A ! f" by simp
  from least [of i] e' have fi: "f \<le> i" by (meson not_le_imp_less)
  show ?thesis
  proof (cases "f = i")
    case True
    with Aj show ?thesis by simp
  next
    case False
    with fi have fi': "f < i" by simp
    from transpD [OF trans e fj(2)] have "eq (c ! i) (c ! f)" .
    moreover have "\<not> eq (c ! i) (c ! k)" if "k < f" for k
      using transpD [OF trans e', of "c ! k"] least [OF that] by blast
    ultimately have "find (\<lambda>k. eq (c ! i) (c ! k)) [0..<i] = Some f"
      using fi' by (simp add: find_upt_Some_iff)
    from normalized_first [OF norm sym trans _ this] ij have "A ! i = A ! f" by simp
    with Aj show ?thesis by simp
  qed
qed

lemma normalized_value:
  assumes norm: "normalized eq c nxt nxt' A"
    and sound: "\<And>a b. eq a b \<Longrightarrow> value_of a = value_of b"
  shows "j < length c \<Longrightarrow> value_of (A ! j) = value_of (c ! j)"
proof (induction j rule: less_induct)
  case (less j)
  from norm less.prems have nj: "case last_match eq c j j of
           Some i \<Rightarrow> A ! j = A ! i
         | None \<Rightarrow> leader_ok nxt nxt' (c ! j) (A ! j)"
    by (simp add: normalized_def)
  show ?case
  proof (cases "last_match eq c j j")
    case None
    with nj show ?thesis by (cases "c ! j") (auto simp: leader_ok_def)
  next
    case (Some i)
    from last_match_SomeD [OF Some] have i: "i < j" "eq (c ! j) (c ! i)" by auto
    from less.IH [OF i(1)] i(1) less.prems have "value_of (A ! i) = value_of (c ! i)" by simp
    with nj Some sound [OF i(2)] show ?thesis by simp
  qed
qed

lemma normalized_leader:
  assumes norm: "normalized eq c nxt nxt' A" and j: "j < length c"
    and no: "\<And>i. i < j \<Longrightarrow> \<not> eq (c ! j) (c ! i)"
  shows "leader_ok nxt nxt' (c ! j) (A ! j)"
  using normalizedD [OF norm j] last_match_NoneI [of j eq c j, OF no] by simp

lemma normalized_Scalar:
  "normalized eq c nxt nxt' A \<Longrightarrow> list_all is_Scalar A"
  by (simp add: normalized_def list_all_length)

lemma normalized_zero:
  assumes norm: "normalized eq (replicate n (Num 0)) nxt nxt' A"
  shows "j < n \<Longrightarrow> value_of (A ! j) = Const 0"
proof (induction j rule: less_induct)
  case (less j)
  let ?c = "replicate n (Num 0)"
  from norm less.prems have nj: "case last_match eq ?c j j of
           Some i \<Rightarrow> A ! j = A ! i
         | None \<Rightarrow> leader_ok nxt nxt' (?c ! j) (A ! j)"
    by (simp add: normalized_def)
  show ?case
  proof (cases "last_match eq ?c j j")
    case None
    with nj less.prems show ?thesis by (auto simp: leader_ok_def)
  next
    case (Some i)
    from last_match_SomeD [OF Some] have i: "i < j" by auto
    from less.IH [OF i] i less.prems nj Some show ?thesis by simp
  qed
qed

subsection \<open>What the map satisfies\<close>

lemma map_char_bound:
  assumes R: "\<And>j. j < n \<Longrightarrow> R ! j = (case last_match eq xs j j of None \<Rightarrow> j | Some i \<Rightarrow> R ! i)"
  shows "j < n \<Longrightarrow> R ! j \<le> j \<and> R ! (R ! j) = R ! j"
proof (induction j rule: less_induct)
  case (less j)
  show ?case
  proof (cases "last_match eq xs j j")
    case None
    with R [OF less.prems] show ?thesis by simp
  next
    case (Some i)
    from last_match_SomeD [OF Some] have i: "i < j" by auto
    from R [OF less.prems] Some have "R ! j = R ! i" by simp
    with less.IH [OF i] i less.prems show ?thesis by simp
  qed
qed

lemma map_char_first:
  assumes R: "\<And>j. j < length xs \<Longrightarrow>
      R ! j = (case last_match eq xs j j of None \<Rightarrow> j | Some i \<Rightarrow> R ! i)"
    and refl: "\<And>a. a \<in> set xs \<Longrightarrow> eq a a"
    and sym: "\<And>a b. a \<in> set xs \<Longrightarrow> b \<in> set xs \<Longrightarrow> eq a b \<Longrightarrow> eq b a"
    and trans: "\<And>a b c. a \<in> set xs \<Longrightarrow> b \<in> set xs \<Longrightarrow> c \<in> set xs \<Longrightarrow> eq a b \<Longrightarrow> eq b c \<Longrightarrow> eq a c"
  shows "j < length xs \<Longrightarrow> find (\<lambda>i. eq (xs ! j) (xs ! i)) [0..<length xs] = Some (R ! j)"
proof (induction j rule: less_induct)
  case (less j)
  have goal: "R ! j < length xs \<and> eq (xs ! j) (xs ! (R ! j)) \<and> (\<forall>k<R ! j. \<not> eq (xs ! j) (xs ! k))"
  proof (cases "last_match eq xs j j")
    case None
    with R [OF less.prems] have "R ! j = j" by simp
    with less.prems refl [of "xs ! j"] last_match_NoneD [OF None] show ?thesis by simp
  next
    case (Some i)
    from last_match_SomeD [OF Some] have i: "i < j" "eq (xs ! j) (xs ! i)" by auto
    from R [OF less.prems] Some have Rj: "R ! j = R ! i" by simp
    from i less.prems have il: "i < length xs" by simp
    from less.IH [OF i(1) il]
    have ri: "R ! i < length xs" "eq (xs ! i) (xs ! (R ! i))"
      and least: "\<And>k. k < R ! i \<Longrightarrow> \<not> eq (xs ! i) (xs ! k)"
      by (simp_all add: find_upt_Some_iff)
    have 1: "eq (xs ! j) (xs ! (R ! i))"
      using trans [OF _ _ _ i(2) ri(2)] less.prems il ri(1) by simp
    have 2: "\<not> eq (xs ! j) (xs ! k)" if k: "k < R ! i" for k
    proof
      assume a: "eq (xs ! j) (xs ! k)"
      have kl: "k < length xs" using k ri(1) by simp
      have "eq (xs ! i) (xs ! j)" using sym [OF _ _ i(2)] less.prems il by simp
      from trans [OF _ _ _ this a] less.prems il kl have "eq (xs ! i) (xs ! k)" by simp
      with least [OF k] show False by simp
    qed
    from 1 2 ri(1) Rj show ?thesis by simp
  qed
  then show ?case by (simp add: find_upt_Some_iff)
qed

subsection \<open>The chain length and the constructor\<close>

lemma finite_implied_lengths: "finite (implied_lengths z x zz)"
  by (auto simp: implied_lengths_def implied_length_def split: option.splits)

lemma determine_L_char:
  "determine_L z x zz =
     (if implied_lengths z x zz = {} then Inr 1
      else if card (implied_lengths z x zz) \<noteq> 1 then Inl IndexError
      else Inr (the_elem (implied_lengths z x zz)))"
proof -
  have "determine_L z x zz =
     (if card (implied_lengths z x zz) = 0 then Inr 1
      else if card (implied_lengths z x zz) \<noteq> 1 then Inl IndexError
      else Inr (the_elem (implied_lengths z x zz)))"
    unfolding determine_L_def implied_lengths_def implied_length_def Let_def
    by (cases z; cases x; cases zz) (simp_all add: Un_commute insert_commute)
  then show ?thesis using finite_implied_lengths [of z x zz] by simp
qed

lemma implied_lengths_mem:
  "n \<in> implied_lengths z x zz \<longleftrightarrow>
     (present z \<and> n = length (the z)) \<or> (present x \<and> n = length (the x))
       \<or> (present zz \<and> n = length (the zz) + 1)"
  by (cases z; cases x; cases zz) (auto simp: implied_lengths_def implied_length_def)

lemma implied_lengths_empty:
  "implied_lengths z x zz = {} \<longleftrightarrow> \<not> present z \<and> \<not> present x \<and> \<not> present zz"
  using implied_lengths_mem [of _ z x zz] by blast

lemma determine_L_Inr:
  assumes "determine_L z x zz = Inr len"
  shows "0 < len" "card (implied_lengths z x zz) \<le> 1"
    "implied_lengths z x zz = {} \<Longrightarrow> len = 1"
    "present z \<Longrightarrow> len = length (the z)"
    "present x \<Longrightarrow> len = length (the x)"
    "present zz \<Longrightarrow> len = length (the zz) + 1"
proof -
  let ?S = "implied_lengths z x zz"
  show e: "?S = {} \<Longrightarrow> len = 1" using assms by (simp add: determine_L_char)
  show c: "card ?S \<le> 1" using assms by (auto simp: determine_L_char split: if_splits)
  have S: "?S = {len}" if "?S \<noteq> {}"
  proof -
    from that assms have "card ?S = 1" "len = the_elem ?S"
      by (auto simp: determine_L_char split: if_splits)
    from this(1) obtain a where "?S = {a}" by (rule card_1_singletonE)
    with \<open>len = the_elem ?S\<close> show ?thesis by simp
  qed
  have mem: "n = len" if "n \<in> ?S" for n using S that by auto
  show "present z \<Longrightarrow> len = length (the z)"
    using mem [of "length (the z)"] by (simp add: implied_lengths_mem)
  show "present x \<Longrightarrow> len = length (the x)"
    using mem [of "length (the x)"] by (simp add: implied_lengths_mem)
  show "present zz \<Longrightarrow> len = length (the zz) + 1"
    using mem [of "length (the zz) + 1"] by (simp add: implied_lengths_mem)
  show "0 < len"
  proof (cases "?S = {}")
    case True
    with e show ?thesis by simp
  next
    case False
    with S have "len \<in> ?S" by simp
    then show ?thesis by (cases z; cases x; cases zz) (auto simp: implied_lengths_mem)
  qed
qed

lemma determine_L_Inl:
  "determine_L z x zz = Inl e \<longleftrightarrow> e = IndexError \<and> 1 < card (implied_lengths z x zz)"
proof -
  let ?S = "implied_lengths z x zz"
  have "?S = {} \<longleftrightarrow> card ?S = 0"
    using finite_implied_lengths [of z x zz] by simp
  then show ?thesis by (cases e) (auto simp: determine_L_char)
qed

lemma determine_L_total:
  "card (implied_lengths z x zz) \<le> 1 \<Longrightarrow> \<exists>len. determine_L z x zz = Inr len"
  using determine_L_Inl [of z x zz]
  by (cases "determine_L z x zz") auto

lemma effective_length:
  "(present cin \<Longrightarrow> n = length (the cin)) \<Longrightarrow> length (effective n cin) = n"
  by (cases cin) auto

lemma effective_present: "present cin \<Longrightarrow> effective n cin = the cin"
  by (cases cin) auto

lemma effective_absent: "\<not> present cin \<Longrightarrow> effective n cin = replicate n (Num 0)"
  by (cases cin) auto

lemma Model_Inr_determine_L:
  assumes len: "determine_L z x zz = Inr len"
  shows "\<exists>m. Model eq nxt z x zz = Inr m \<and> model_ok eq nxt z x zz m"
proof -
  note dl = determine_L_Inr [OF len]
  have lx: "length (effective len x) = len" using dl(5) by (rule effective_length)
  have lz: "length (effective len z) = len" using dl(4) by (rule effective_length)
  have lzz: "length (effective (len - 1) zz) = len - 1"
    using dl(6) by (intro effective_length) simp
  from construct_attribute_normalized [OF lx order_refl, of eq nxt]
  obtain xf n1 where xf: "construct_attribute eq len nxt x len = Inr (xf, n1)"
    and nx: "normalized eq (effective len x) nxt n1 xf" by blast
  from construct_attribute_normalized [OF lz order_refl, of eq n1]
  obtain zf n2 where zf: "construct_attribute eq len n1 z len = Inr (zf, n2)"
    and nz: "normalized eq (effective len z) n1 n2 zf" by blast
  from construct_attribute_normalized [OF lzz, of len eq n2]
  obtain zzf n3 where zzf: "construct_attribute eq len n2 zz (len - 1) = Inr (zzf, n3)"
    and nzz: "normalized eq (effective (len - 1) zz) n2 n3 zzf" by auto
  from nx lx have lxf: "length xf = len" by (simp add: normalized_def)
  from calc_map_inv [of eq xf] lxf
  obtain R where R: "calc_map_btwn_site_indices_and_unique_x_fields eq len xf = Inr R"
    and lR: "length R = len"
    and cR: "\<forall>j<len. R ! j = (case last_match eq xf j j of None \<Rightarrow> j | Some i \<Rightarrow> R ! i)"
    by auto
  let ?m = "\<lparr>L = len, x_fields = xf, z_fields = zf, zz_couplers = zzf,
             map_btwn_site_indices_and_unique_x_fields = R\<rparr>"
  have "Model eq nxt z x zz = Inr ?m"
    using zzf by (simp add: Model_def len xf zf R)
  moreover have "model_ok eq nxt z x zz ?m"
    unfolding model_ok_def using len nx nz nzz lR cR by (auto split: option.splits)
  ultimately show ?thesis by blast
qed

lemma Model_Inl:
  "Model eq nxt z x zz = Inl e \<longleftrightarrow> determine_L z x zz = Inl e"
proof (cases "determine_L z x zz")
  case (Inl e')
  then show ?thesis by (simp add: Model_def)
next
  case (Inr len)
  from Model_Inr_determine_L [OF Inr, of eq nxt] Inr show ?thesis by auto
qed

lemma Model_InrD:
  assumes "Model eq nxt z x zz = Inr m"
  shows "model_ok eq nxt z x zz m"
proof (cases "determine_L z x zz")
  case (Inl e)
  with Model_Inl [of eq nxt z x zz e] assms show ?thesis by simp
next
  case (Inr len)
  from Model_Inr_determine_L [OF Inr, of eq nxt] assms show ?thesis by auto
qed

section \<open>The claims\<close>

lemma leader_ok_own: "leader_ok nxt nxt' cj aj \<Longrightarrow> own_object nxt cj aj"
  by (cases cj) (auto simp: leader_ok_def)

lemma normalized_shares:
  assumes norm: "normalized eq c nxt nxt' A" and sym: "symp eq" and trans: "transp eq"
    and le: "nxt0 \<le> nxt"
  shows "shares_equal_entries eq nxt0 c A"
proof -
  have own: "own_object nxt0 cj aj" if "leader_ok nxt nxt' cj aj" for cj aj
    using that le by (cases cj) (auto simp: leader_ok_def)
  show ?thesis
    unfolding shares_equal_entries_def
    using normalized_shared [OF norm sym trans] normalized_first [OF norm sym trans] own
    by blast
qed

lemma model_ok_nexts:
  assumes "model_ok eq nxt z x zz m"
  obtains n1 n2 n3 where
    "normalized eq (effective (L m) x) nxt n1 (x_fields m)"
    "normalized eq (effective (L m) z) n1 n2 (z_fields m)"
    "normalized eq (effective (L m - 1) zz) n2 n3 (zz_couplers m)"
    "nxt \<le> n1" "n1 \<le> n2" "n2 \<le> n3"
  using assms unfolding model_ok_def normalized_def by blast

text \<open>
  Claim C1. For each of the three arrays given to the constructor: when two raw entries of
  the array are equal, the two normalized entries are one and the same object, and that
  object is the one of the earliest entry equal to them: the caller's \<open>Scalar\<close> if that
  entry is one, the \<open>Scalar\<close> created for it otherwise. The comparison \<open>==\<close> is taken
  symmetric and transitive, as a comparison by value is.
\<close>

theorem equal_raw_entries_share_one_object:
  assumes "Model eq nxt z_fields_in x_fields_in zz_couplers_in = Inr m"
    and "symp eq" and "transp eq"
  shows "(present z_fields_in \<longrightarrow>
            shares_equal_entries eq nxt (the z_fields_in) (z_fields m)) \<and>
         (present x_fields_in \<longrightarrow>
            shares_equal_entries eq nxt (the x_fields_in) (x_fields m)) \<and>
         (present zz_couplers_in \<longrightarrow>
            shares_equal_entries eq nxt (the zz_couplers_in) (zz_couplers m))"
proof -
  from Model_InrD [OF assms(1)] have ok: "model_ok eq nxt z_fields_in x_fields_in zz_couplers_in m" .
  from ok obtain n1 n2 n3 where
    nx: "normalized eq (effective (L m) x_fields_in) nxt n1 (x_fields m)" and
    nz: "normalized eq (effective (L m) z_fields_in) n1 n2 (z_fields m)" and
    nzz: "normalized eq (effective (L m - 1) zz_couplers_in) n2 n3 (zz_couplers m)" and
    le: "nxt \<le> n1" "n1 \<le> n2" "n2 \<le> n3"
    by (rule model_ok_nexts)
  from normalized_shares [OF nx assms(2,3) order_refl]
  have "present x_fields_in \<longrightarrow> shares_equal_entries eq nxt (the x_fields_in) (x_fields m)"
    by (auto simp: effective_present)
  moreover from normalized_shares [OF nz assms(2,3) le(1)]
  have "present z_fields_in \<longrightarrow> shares_equal_entries eq nxt (the z_fields_in) (z_fields m)"
    by (auto simp: effective_present)
  moreover from normalized_shares [OF nzz assms(2,3), of nxt] le
  have "present zz_couplers_in \<longrightarrow>
          shares_equal_entries eq nxt (the zz_couplers_in) (zz_couplers m)"
    by (auto simp: effective_present)
  ultimately show ?thesis by simp
qed

lemma symp_value_eq: "symp value_eq"
  by (rule sympI) (simp add: value_eq_def)

lemma transp_value_eq: "transp value_eq"
  by (rule transpI) (simp add: value_eq_def)

theorem equal_raw_entries_share_one_object_witness:
  "Model value_eq 10 (Some [Num 5, Num (5::real)]) None None =
     Inr \<lparr>L = 2, x_fields = [Obj 10 (Const 0), Obj 10 (Const 0)],
          z_fields = [Obj 11 (Const 5), Obj 11 (Const 5)],
          zz_couplers = [Obj 12 (Const 0) :: (real, nat) elem],
          map_btwn_site_indices_and_unique_x_fields = [0, 0]\<rparr> \<and>
   shares_equal_entries value_eq 10 [Num 5, Num 5]
     [Obj 11 (Const 5), Obj 11 (Const 5) :: (real, nat) elem]"
proof -
  have m: "Model value_eq 10 (Some [Num 5, Num (5::real)]) None None =
     Inr \<lparr>L = 2, x_fields = [Obj 10 (Const 0), Obj 10 (Const 0)],
          z_fields = [Obj 11 (Const 5), Obj 11 (Const 5)],
          zz_couplers = [Obj 12 (Const 0) :: (real, nat) elem],
          map_btwn_site_indices_and_unique_x_fields = [0, 0]\<rparr>"
    by code_simp
  from equal_raw_entries_share_one_object [OF m symp_value_eq transp_value_eq] m
  show ?thesis by simp
qed

lemma model_ok_lengths:
  assumes "model_ok eq nxt z x zz m"
  shows "0 < L m" "length (x_fields m) = L m" "length (z_fields m) = L m"
    "length (zz_couplers m) = L m - 1"
    "length (effective (L m) x) = L m" "length (effective (L m) z) = L m"
    "length (effective (L m - 1) zz) = L m - 1"
proof -
  from assms have dl: "determine_L z x zz = Inr (L m)" by (simp add: model_ok_def)
  note d = determine_L_Inr [OF dl]
  show "0 < L m" by (rule d(1))
  show ex: "length (effective (L m) x) = L m" using d(5) by (rule effective_length)
  show ez: "length (effective (L m) z) = L m" using d(4) by (rule effective_length)
  show ezz: "length (effective (L m - 1) zz) = L m - 1"
    using d(6) by (intro effective_length) simp
  from assms obtain n1 n2 n3 where
    "normalized eq (effective (L m) x) nxt n1 (x_fields m)"
    "normalized eq (effective (L m) z) n1 n2 (z_fields m)"
    "normalized eq (effective (L m - 1) zz) n2 n3 (zz_couplers m)"
    by (rule model_ok_nexts)
  with ex ez ezz show "length (x_fields m) = L m" "length (z_fields m) = L m"
    "length (zz_couplers m) = L m - 1"
    by (simp_all add: normalized_def)
qed

text \<open>
  Claim C8. Every entry of the three attributes of a constructed \<open>Model\<close> is a \<open>Scalar\<close>
  instance, whatever the inputs were (numbers, \<open>Scalar\<close> objects, absent arrays) and
  whatever \<open>==\<close> does.
\<close>

theorem every_normalized_entry_is_a_Scalar:
  assumes "Model eq nxt z_fields_in x_fields_in zz_couplers_in = Inr m"
  shows "list_all is_Scalar (z_fields m) \<and> list_all is_Scalar (x_fields m)
           \<and> list_all is_Scalar (zz_couplers m)"
proof -
  from Model_InrD [OF assms] obtain n1 n2 n3 where
    "normalized eq (effective (L m) x_fields_in) nxt n1 (x_fields m)"
    "normalized eq (effective (L m) z_fields_in) n1 n2 (z_fields m)"
    "normalized eq (effective (L m - 1) zz_couplers_in) n2 n3 (zz_couplers m)"
    by (rule model_ok_nexts)
  then show ?thesis by (simp add: normalized_Scalar)
qed

theorem every_normalized_entry_is_a_Scalar_witness:
  "Model value_eq 10 (Some [Num 2, Obj 3 (TimeDep 7)]) None (Some [Obj 4 (Const (1::real))]) =
     Inr \<lparr>L = 2, x_fields = [Obj 10 (Const 0), Obj 10 (Const 0)],
          z_fields = [Obj 11 (Const 2), Obj 3 (TimeDep 7)],
          zz_couplers = [Obj 4 (Const 1) :: (real, nat) elem],
          map_btwn_site_indices_and_unique_x_fields = [0, 0]\<rparr> \<and>
   list_all is_Scalar [Obj 11 (Const 2), Obj 3 (TimeDep 7) :: (real, nat) elem] \<and>
   list_all is_Scalar [Obj 10 (Const 0), Obj 10 (Const 0) :: (real, nat) elem] \<and>
   list_all is_Scalar [Obj 4 (Const 1) :: (real, nat) elem]"
proof -
  have m: "Model value_eq 10 (Some [Num 2, Obj 3 (TimeDep 7)]) None
             (Some [Obj 4 (Const (1::real))]) =
     Inr \<lparr>L = 2, x_fields = [Obj 10 (Const 0), Obj 10 (Const 0)],
          z_fields = [Obj 11 (Const 2), Obj 3 (TimeDep 7)],
          zz_couplers = [Obj 4 (Const 1) :: (real, nat) elem],
          map_btwn_site_indices_and_unique_x_fields = [0, 0]\<rparr>"
    by code_simp
  from every_normalized_entry_is_a_Scalar [OF m] m show ?thesis by simp
qed

text \<open>
  Claim C9. In a constructed \<open>Model\<close> the map of the x-fields has one entry per site, the
  entry of site \<open>r\<close> is at most \<open>r\<close>, and the map is idempotent. Nothing is assumed of
  \<open>==\<close>: it need not be transitive, symmetric or reflexive.
\<close>

theorem x_field_map_bounded_and_idempotent:
  assumes "Model eq nxt z_fields_in x_fields_in zz_couplers_in = Inr m" and "r < L m"
  shows "length (map_btwn_site_indices_and_unique_x_fields m) = L m \<and>
         0 \<le> map_btwn_site_indices_and_unique_x_fields m ! r \<and>
         map_btwn_site_indices_and_unique_x_fields m ! r \<le> r \<and>
         map_btwn_site_indices_and_unique_x_fields m
           ! (map_btwn_site_indices_and_unique_x_fields m ! r) =
         map_btwn_site_indices_and_unique_x_fields m ! r"
proof -
  let ?R = "map_btwn_site_indices_and_unique_x_fields m"
  from Model_InrD [OF assms(1)] have len: "length ?R = L m"
    and R: "\<And>j. j < L m \<Longrightarrow>
      ?R ! j = (case last_match eq (x_fields m) j j of None \<Rightarrow> j | Some i \<Rightarrow> ?R ! i)"
    by (simp_all add: model_ok_def)
  from map_char_bound [of "L m" ?R eq "x_fields m" r, OF R assms(2)] len show ?thesis by simp
qed

theorem x_field_map_bounded_and_idempotent_witness:
  "Model near_eq 0 None (Some [Num 1, Num 3, Num 2]) None =
     Inr \<lparr>L = 3, x_fields = [Obj 0 (Const 1), Obj 1 (Const 3), Obj 1 (Const 3)],
          z_fields = [Obj 2 (Const 0), Obj 2 (Const 0), Obj 2 (Const 0)],
          zz_couplers = [Obj 3 (Const 0), Obj 3 (Const 0) :: (int, nat) elem],
          map_btwn_site_indices_and_unique_x_fields = [0, 1, 1]\<rparr> \<and>
   (2::nat) < 3 \<and> length [0, 1, 1 :: nat] = 3 \<and> (0::nat) \<le> [0, 1, 1] ! 2 \<and>
   [0, 1, 1] ! 2 \<le> (2::nat) \<and> [0, 1, 1] ! ([0, 1, 1] ! 2) = [0, 1, 1 :: nat] ! 2"
proof -
  have m: "Model near_eq 0 None (Some [Num 1, Num 3, Num 2]) None =
     Inr \<lparr>L = 3, x_fields = [Obj 0 (Const 1), Obj 1 (Const 3), Obj 1 (Const 3)],
          z_fields = [Obj 2 (Const 0), Obj 2 (Const 0), Obj 2 (Const 0)],
          zz_couplers = [Obj 3 (Const 0), Obj 3 (Const 0) :: (int, nat) elem],
          map_btwn_site_indices_and_unique_x_fields = [0, 1, 1]\<rparr>"
    by code_simp
  from x_field_map_bounded_and_idempotent [OF m, of 2] m show ?thesis by simp
qed

text \<open>
  Claim C4. In a constructed \<open>Model\<close>, the map sends site \<open>r\<close> to the first site of
  \<open>0 .. L - 1\<close> whose normalized x-field is equal to the one of site \<open>r\<close>. The
  comparison \<open>==\<close> of \<open>Scalar\<close> objects is taken to be an equivalence relation, as a
  comparison by value is.
\<close>

theorem x_field_map_is_smallest_equal_site:
  assumes "Model eq nxt z_fields_in x_fields_in zz_couplers_in = Inr m"
    and "equivalence_on_Scalars eq" and "r < L m"
  shows "find (\<lambda>i. eq (x_fields m ! r) (x_fields m ! i)) [0 ..< L m] =
           Some (map_btwn_site_indices_and_unique_x_fields m ! r)"
proof -
  let ?R = "map_btwn_site_indices_and_unique_x_fields m"
  note ok = Model_InrD [OF assms(1)]
  from ok have R: "\<And>j. j < L m \<Longrightarrow>
      ?R ! j = (case last_match eq (x_fields m) j j of None \<Rightarrow> j | Some i \<Rightarrow> ?R ! i)"
    by (simp add: model_ok_def)
  have len: "length (x_fields m) = L m" using ok by (rule model_ok_lengths)
  from ok obtain n1 n2 n3 where
    "normalized eq (effective (L m) x_fields_in) nxt n1 (x_fields m)"
    by (rule model_ok_nexts)
  then have sc: "\<And>a. a \<in> set (x_fields m) \<Longrightarrow> is_Scalar a"
    using normalized_Scalar [of eq _ nxt n1 "x_fields m"] by (simp add: list_all_iff)
  from assms(2) have refl: "\<And>a. is_Scalar a \<Longrightarrow> eq a a"
    by (simp add: equivalence_on_Scalars_def)
  from assms(2) have sym: "\<And>a b. is_Scalar a \<Longrightarrow> is_Scalar b \<Longrightarrow> eq a b \<Longrightarrow> eq b a"
    unfolding equivalence_on_Scalars_def by blast
  from assms(2) have trans: "\<And>a b c. is_Scalar a \<Longrightarrow> is_Scalar b \<Longrightarrow> is_Scalar c
      \<Longrightarrow> eq a b \<Longrightarrow> eq b c \<Longrightarrow> eq a c"
    unfolding equivalence_on_Scalars_def by blast
  have "find (\<lambda>i. eq (x_fields m ! r) (x_fields m ! i)) [0 ..< length (x_fields m)] = Some (?R ! r)"
  proof (rule map_char_first)
    show "r < length (x_fields m)" using assms(3) len by simp
    show "?R ! j = (case last_match eq (x_fields m) j j of None \<Rightarrow> j | Some i \<Rightarrow> ?R ! i)"
      if "j < length (x_fields m)" for j using R [of j] that len by simp
    show "eq a a" if "a \<in> set (x_fields m)" for a using refl [OF sc [OF that]] .
    show "eq b a" if "a \<in> set (x_fields m)" "b \<in> set (x_fields m)" "eq a b" for a b
      using sym [OF sc [OF that(1)] sc [OF that(2)] that(3)] .
    show "eq a c" if "a \<in> set (x_fields m)" "b \<in> set (x_fields m)" "c \<in> set (x_fields m)"
      "eq a b" "eq b c" for a b c
      using trans [OF sc [OF that(1)] sc [OF that(2)] sc [OF that(3)] that(4,5)] .
  qed
  with len show ?thesis by simp
qed

lemma equivalence_on_Scalars_value_eq: "equivalence_on_Scalars value_eq"
  by (simp add: equivalence_on_Scalars_def value_eq_def)

theorem x_field_map_is_smallest_equal_site_witness:
  "Model value_eq 10 None (Some [Num 1, Num 2, Num 1, Num (3::real)]) None =
     Inr \<lparr>L = 4,
          x_fields = [Obj 10 (Const 1), Obj 11 (Const 2), Obj 10 (Const 1), Obj 12 (Const 3)],
          z_fields = [Obj 13 (Const 0), Obj 13 (Const 0), Obj 13 (Const 0), Obj 13 (Const 0)],
          zz_couplers = [Obj 14 (Const 0), Obj 14 (Const 0), Obj 14 (Const 0) :: (real, nat) elem],
          map_btwn_site_indices_and_unique_x_fields = [0, 1, 0, 3]\<rparr> \<and>
   equivalence_on_Scalars (value_eq :: (real, nat) elem \<Rightarrow> (real, nat) elem \<Rightarrow> bool) \<and>
   (2::nat) < 4 \<and>
   find (\<lambda>i. value_eq
           ([Obj 10 (Const 1), Obj 11 (Const 2), Obj 10 (Const 1), Obj 12 (Const 3)] ! 2)
           ([Obj 10 (Const 1), Obj 11 (Const 2), Obj 10 (Const 1),
             Obj 12 (Const 3) :: (real, nat) elem] ! i)) [0 ..< 4] = Some ([0, 1, 0, 3] ! 2)"
proof -
  have m: "Model value_eq 10 None (Some [Num 1, Num 2, Num 1, Num (3::real)]) None =
     Inr \<lparr>L = 4,
          x_fields = [Obj 10 (Const 1), Obj 11 (Const 2), Obj 10 (Const 1), Obj 12 (Const 3)],
          z_fields = [Obj 13 (Const 0), Obj 13 (Const 0), Obj 13 (Const 0), Obj 13 (Const 0)],
          zz_couplers = [Obj 14 (Const 0), Obj 14 (Const 0), Obj 14 (Const 0) :: (real, nat) elem],
          map_btwn_site_indices_and_unique_x_fields = [0, 1, 0, 3]\<rparr>"
    by code_simp
  from x_field_map_is_smallest_equal_site [OF m equivalence_on_Scalars_value_eq, of 2]
    m equivalence_on_Scalars_value_eq
  show ?thesis by simp
qed

lemma normalized_keeps_value:
  assumes nrm: "normalized eq c nxt nxt' A"
    and sound: "\<forall>a b. eq a b \<longrightarrow> value_of a = value_of b"
  shows "keeps_value eq c A"
  unfolding keeps_value_def
proof (intro allI impI)
  fix j a s
  assume h: "j < length c \<and> c ! j = Obj a s"
  then have j: "j < length c" and cj: "c ! j = Obj a s" by simp_all
  from nrm j have 1: "is_Scalar (A ! j)" by (simp add: normalized_def)
  from normalized_value [OF nrm _ j] sound cj have 2: "value_of (A ! j) = s" by simp
  have 3: "A ! j = Obj a s" if "\<forall>i<j. \<not> eq (c ! j) (c ! i)"
    using normalized_leader [OF nrm j] that cj by (simp add: leader_ok_def)
  from 1 2 3 show "is_Scalar (A ! j) \<and> value_of (A ! j) = s \<and>
        ((\<forall>i<j. \<not> eq (c ! j) (c ! i)) \<longrightarrow> A ! j = Obj a s)" by simp
qed

text \<open>
  Claim C6. For each of the three arrays: an entry that is already a \<open>Scalar\<close> comes out as
  a \<open>Scalar\<close> that holds exactly what the given one holds, and it is the given object
  itself when no earlier entry of the array is equal to it. The comparison \<open>==\<close> is taken
  to hold only between entries that stand for the same scalar, as a comparison by value
  does.
\<close>

theorem wrapped_entries_keep_their_value:
  assumes "Model eq nxt z_fields_in x_fields_in zz_couplers_in = Inr m"
    and "\<forall>a b. eq a b \<longrightarrow> value_of a = value_of b"
  shows "(present z_fields_in \<longrightarrow> keeps_value eq (the z_fields_in) (z_fields m)) \<and>
         (present x_fields_in \<longrightarrow> keeps_value eq (the x_fields_in) (x_fields m)) \<and>
         (present zz_couplers_in \<longrightarrow> keeps_value eq (the zz_couplers_in) (zz_couplers m))"
proof -
  from Model_InrD [OF assms(1)] obtain n1 n2 n3 where
    nx: "normalized eq (effective (L m) x_fields_in) nxt n1 (x_fields m)" and
    nz: "normalized eq (effective (L m) z_fields_in) n1 n2 (z_fields m)" and
    nzz: "normalized eq (effective (L m - 1) zz_couplers_in) n2 n3 (zz_couplers m)"
    by (rule model_ok_nexts)
  from normalized_keeps_value [OF nx assms(2)] normalized_keeps_value [OF nz assms(2)]
    normalized_keeps_value [OF nzz assms(2)]
  show ?thesis by (auto simp: effective_present)
qed

theorem wrapped_entries_keep_their_value_witness:
  "Model value_eq 10 None (Some [Obj 3 (TimeDep 7), Obj 4 (Const 2), Obj 5 (Const (2::real))])
     None =
     Inr \<lparr>L = 3,
          x_fields = [Obj 3 (TimeDep 7), Obj 4 (Const 2), Obj 4 (Const 2)],
          z_fields = [Obj 10 (Const 0), Obj 10 (Const 0), Obj 10 (Const 0)],
          zz_couplers = [Obj 11 (Const 0), Obj 11 (Const 0) :: (real, nat) elem],
          map_btwn_site_indices_and_unique_x_fields = [0, 1, 1]\<rparr> \<and>
   keeps_value value_eq [Obj 3 (TimeDep 7), Obj 4 (Const 2), Obj 5 (Const 2)]
     [Obj 3 (TimeDep 7), Obj 4 (Const 2), Obj 4 (Const 2) :: (real, nat) elem]"
proof -
  have m: "Model value_eq 10 None
      (Some [Obj 3 (TimeDep 7), Obj 4 (Const 2), Obj 5 (Const (2::real))]) None =
     Inr \<lparr>L = 3,
          x_fields = [Obj 3 (TimeDep 7), Obj 4 (Const 2), Obj 4 (Const 2)],
          z_fields = [Obj 10 (Const 0), Obj 10 (Const 0), Obj 10 (Const 0)],
          zz_couplers = [Obj 11 (Const 0), Obj 11 (Const 0) :: (real, nat) elem],
          map_btwn_site_indices_and_unique_x_fields = [0, 1, 1]\<rparr>"
    by code_simp
  have s: "\<forall>a b :: (real, nat) elem. value_eq a b \<longrightarrow> value_of a = value_of b"
    by (simp add: value_eq_def)
  from wrapped_entries_keep_their_value [OF m s] m show ?thesis by simp
qed

text \<open>
  On inputs that are lists, the constructor fails exactly when the present, non-empty
  arrays imply more than one chain length. The failure is the exception raised by
  \<open>_determine_L\<close> (an \<open>IndexError\<close> with the message of incompatible dimensions); no list
  access of the later steps fails, and no value of an entry makes the constructor fail.
\<close>

lemma list_construction_fails_iff_lengths_disagree:
  "(Model eq nxt z_fields_in x_fields_in zz_couplers_in = Inl IndexError
      \<longleftrightarrow> 1 < card (implied_lengths z_fields_in x_fields_in zz_couplers_in)) \<and>
   ((\<exists>m. Model eq nxt z_fields_in x_fields_in zz_couplers_in = Inr m)
      \<longleftrightarrow> card (implied_lengths z_fields_in x_fields_in zz_couplers_in) \<le> 1) \<and>
   (Model eq nxt z_fields_in x_fields_in zz_couplers_in = Inl e
      \<longleftrightarrow> determine_L z_fields_in x_fields_in zz_couplers_in = Inl e) \<and>
   Model eq nxt z_fields_in x_fields_in zz_couplers_in \<noteq> Inl TypeError"
proof -
  let ?S = "implied_lengths z_fields_in x_fields_in zz_couplers_in"
  let ?M = "Model eq nxt z_fields_in x_fields_in zz_couplers_in"
  have 1: "?M = Inl e' \<longleftrightarrow> e' = IndexError \<and> 1 < card ?S" for e'
    by (simp add: Model_Inl determine_L_Inl)
  have 2: "(\<exists>m. ?M = Inr m) \<longleftrightarrow> card ?S \<le> 1"
  proof
    assume "\<exists>m. ?M = Inr m"
    then obtain m where "?M = Inr m" ..
    with 1 [of IndexError] show "card ?S \<le> 1" by (cases "1 < card ?S") simp_all
  next
    assume "card ?S \<le> 1"
    from determine_L_total [OF this] obtain len
      where "determine_L z_fields_in x_fields_in zz_couplers_in = Inr len" ..
    from Model_Inr_determine_L [OF this, of eq nxt] show "\<exists>m. ?M = Inr m" by blast
  qed
  from 1 [of IndexError] 1 [of TypeError] 2
    Model_Inl [of eq nxt z_fields_in x_fields_in zz_couplers_in e]
  show ?thesis by simp
qed

lemma list_construction_fails_example:
  "Model value_eq 10 (Some [Num 1, Num 2, Num (3::real)]) None
      (Some [Num 4 :: (real, nat) elem]) = Inl IndexError \<and>
   1 < card (implied_lengths (Some [Num 1, Num 2, Num (3::real)]) None
               (Some [Num 4 :: (real, nat) elem]))"
proof -
  have "implied_lengths (Some [Num 1, Num 2, Num (3::real)]) None
          (Some [Num 4 :: (real, nat) elem]) = {Suc (Suc 0), Suc (Suc (Suc 0))}"
    by (simp add: implied_lengths_def implied_length_def)
  then have c: "1 < card (implied_lengths (Some [Num 1, Num 2, Num (3::real)]) None
               (Some [Num 4 :: (real, nat) elem]))" by simp
  with list_construction_fails_iff_lengths_disagree
    [of value_eq 10 "Some [Num 1, Num 2, Num (3::real)]" None "Some [Num 4 :: (real, nat) elem]"]
  show ?thesis by simp
qed

lemma construct_attribute_array_like_PyList:
  "construct_attribute_array_like eq self_L nxt (map_option PyList cin) n =
     construct_attribute eq self_L nxt cin n"
  by (cases cin) (simp_all add: construct_attribute_array_like_def)

lemma items_PyList: "map_option items (map_option PyList c) = c"
  by (cases c) simp_all

lemma Model_array_like_PyList:
  "Model_array_like eq nxt (map_option PyList z_fields_in) (map_option PyList x_fields_in)
     (map_option PyList zz_couplers_in) = Model eq nxt z_fields_in x_fields_in zz_couplers_in"
  unfolding Model_array_like_def Model_def construct_attribute_array_like_PyList items_PyList
  by (rule refl)

text \<open>
  Claim C3 does not hold of the code. With the z-fields given as the tuple
  \<open>(1.0, 2.0)\<close> and nothing else, the only implied chain length is 2, and the constructor
  raises \<open>TypeError\<close>: the first entry is a number, and the \<open>Scalar\<close> built from it cannot be
  stored into the tuple that \<open>ctor_param[:]\<close> is. The same entries in a list give a
  \<open>Model\<close>.
\<close>

theorem tuple_input_raises_TypeError:
  "implied_lengths (map_option items (Some (PyTuple [Num 1, Num (2::real) :: (real, nat) elem])))
     None None = {2} \<and>
   Model_array_like value_eq 10 (Some (PyTuple [Num 1, Num (2::real)])) None
     (None :: (real, nat) elem array_like option) = Inl TypeError \<and>
   Model_array_like value_eq 10 (Some (PyList [Num 1, Num (2::real)])) None
     (None :: (real, nat) elem array_like option) =
     Inr \<lparr>L = 2, x_fields = [Obj 10 (Const 0), Obj 10 (Const 0)],
          z_fields = [Obj 11 (Const 1), Obj 12 (Const 2)],
          zz_couplers = [Obj 13 (Const 0)],
          map_btwn_site_indices_and_unique_x_fields = [0, 0]\<rparr>"
proof -
  have "implied_lengths (map_option items
          (Some (PyTuple [Num 1, Num (2::real) :: (real, nat) elem]))) None None = {2}"
    by (simp add: implied_lengths_def implied_length_def)
  moreover have "Model_array_like value_eq 10 (Some (PyTuple [Num 1, Num (2::real)])) None
     (None :: (real, nat) elem array_like option) = Inl TypeError"
    by code_simp
  moreover have "Model_array_like value_eq 10 (Some (PyList [Num 1, Num (2::real)])) None
     (None :: (real, nat) elem array_like option) =
     Inr \<lparr>L = 2, x_fields = [Obj 10 (Const 0), Obj 10 (Const 0)],
          z_fields = [Obj 11 (Const 1), Obj 12 (Const 2)],
          zz_couplers = [Obj 13 (Const 0)],
          map_btwn_site_indices_and_unique_x_fields = [0, 0]\<rparr>"
    by code_simp
  ultimately show ?thesis by simp
qed

lemma Model_fields:
  assumes "Model eq nxt z x zz = Inr m"
  shows "\<exists>n1 n2 n3. determine_L z x zz = Inr (L m) \<and>
     construct_attribute eq (L m) nxt x (L m) = Inr (x_fields m, n1) \<and>
     construct_attribute eq (L m) n1 z (L m) = Inr (z_fields m, n2) \<and>
     construct_attribute eq (L m) n2 zz (L m - 1) = Inr (zz_couplers m, n3) \<and>
     calc_map_btwn_site_indices_and_unique_x_fields eq (L m) (x_fields m) =
       Inr (map_btwn_site_indices_and_unique_x_fields m)"
  using assms unfolding Model_def by (auto split: sum.splits prod.splits)

lemma construct_attribute_absent_1:
  "\<not> present cin \<Longrightarrow>
     construct_attribute eq (Suc 0) n cin (Suc 0) = Inr ([Obj n (Const 0)], Suc n)"
  by (cases cin) (simp_all add: construct_attribute_def)

lemma construct_attribute_absent_0:
  "\<not> present cin \<Longrightarrow> construct_attribute eq l n cin 0 = Inr ([], n)"
  by (cases cin) (simp_all add: construct_attribute_def)

lemma normalized_zero_array:
  assumes "normalized eq (replicate n (Num 0)) nxt nxt' A"
  shows "zero_array n A"
proof -
  from assms have len: "length A = n" and sc: "\<And>j. j < n \<Longrightarrow> is_Scalar (A ! j)"
    by (simp_all add: normalized_def)
  with normalized_zero [OF assms] show ?thesis
    by (simp add: zero_array_def list_all_length)
qed

text \<open>
  Claim C2. When the present, non-empty arrays imply at most one chain length, the
  constructor returns a \<open>Model\<close>. With no such array, \<open>L\<close> is 1 and the three attributes are
  one zero scalar, one zero scalar and the empty list. Otherwise \<open>L\<close> is the length every
  present array implies (its length for the fields, its length plus one for the couplers).
  In all cases the attributes have \<open>L\<close>, \<open>L\<close> and \<open>L - 1\<close> entries, and the attribute of an
  absent or empty array consists of time-independent zero scalars.
\<close>

theorem chain_length_and_default_arrays:
  assumes "card (implied_lengths z_fields_in x_fields_in zz_couplers_in) \<le> 1"
  shows "\<exists>m. Model eq nxt z_fields_in x_fields_in zz_couplers_in = Inr m \<and>
     (\<not> present z_fields_in \<and> \<not> present x_fields_in \<and> \<not> present zz_couplers_in \<longrightarrow>
        L m = 1 \<and> x_fields m = [Obj nxt (Const 0)] \<and> z_fields m = [Obj (Suc nxt) (Const 0)]
          \<and> zz_couplers m = []) \<and>
     (present z_fields_in \<longrightarrow> L m = length (the z_fields_in)) \<and>
     (present x_fields_in \<longrightarrow> L m = length (the x_fields_in)) \<and>
     (present zz_couplers_in \<longrightarrow> L m = length (the zz_couplers_in) + 1) \<and>
     length (z_fields m) = L m \<and> length (x_fields m) = L m \<and>
     length (zz_couplers m) = L m - 1 \<and>
     (\<not> present z_fields_in \<longrightarrow> zero_array (L m) (z_fields m)) \<and>
     (\<not> present x_fields_in \<longrightarrow> zero_array (L m) (x_fields m)) \<and>
     (\<not> present zz_couplers_in \<longrightarrow> zero_array (L m - 1) (zz_couplers m))"
proof -
  let ?z = z_fields_in and ?x = x_fields_in and ?zz = zz_couplers_in
  from determine_L_total [OF assms] obtain len where len: "determine_L ?z ?x ?zz = Inr len" ..
  from Model_Inr_determine_L [OF len, of eq nxt] obtain m
    where m: "Model eq nxt ?z ?x ?zz = Inr m" and ok: "model_ok eq nxt ?z ?x ?zz m" by blast
  from ok have dl: "determine_L ?z ?x ?zz = Inr (L m)" by (simp add: model_ok_def)
  note d = determine_L_Inr [OF dl]
  note lens = model_ok_lengths [OF ok]
  from ok obtain n1 n2 n3 where
    nx: "normalized eq (effective (L m) ?x) nxt n1 (x_fields m)" and
    nz: "normalized eq (effective (L m) ?z) n1 n2 (z_fields m)" and
    nzz: "normalized eq (effective (L m - 1) ?zz) n2 n3 (zz_couplers m)"
    by (rule model_ok_nexts)
  have zx: "\<not> present ?x \<longrightarrow> zero_array (L m) (x_fields m)"
    using nx normalized_zero_array [of eq "L m" nxt n1 "x_fields m"]
    by (auto simp: effective_absent)
  have zz: "\<not> present ?z \<longrightarrow> zero_array (L m) (z_fields m)"
    using nz normalized_zero_array [of eq "L m" n1 n2 "z_fields m"]
    by (auto simp: effective_absent)
  have zzz: "\<not> present ?zz \<longrightarrow> zero_array (L m - 1) (zz_couplers m)"
    using nzz normalized_zero_array [of eq "L m - 1" n2 n3 "zz_couplers m"]
    by (auto simp: effective_absent)
  have none: "L m = 1 \<and> x_fields m = [Obj nxt (Const 0)]
      \<and> z_fields m = [Obj (Suc nxt) (Const 0)] \<and> zz_couplers m = []"
    if a: "\<not> present ?z" "\<not> present ?x" "\<not> present ?zz"
  proof -
    from a have "implied_lengths ?z ?x ?zz = {}" by (simp add: implied_lengths_empty)
    from d(3) [OF this] have L1: "L m = Suc 0" by simp
    from Model_fields [OF m] obtain k1 k2 k3 where
      "construct_attribute eq (L m) nxt ?x (L m) = Inr (x_fields m, k1)"
      "construct_attribute eq (L m) k1 ?z (L m) = Inr (z_fields m, k2)"
      "construct_attribute eq (L m) k2 ?zz (L m - 1) = Inr (zz_couplers m, k3)"
      by blast
    with a L1 show ?thesis
      by (simp add: construct_attribute_absent_1 construct_attribute_absent_0)
  qed
  from m none d(4,5,6) lens(2,3,4) zx zz zzz show ?thesis by blast
qed

theorem chain_length_and_default_arrays_witness:
  "card (implied_lengths None None (Some [Num 1, Num 2, Num (1::real) :: (real, nat) elem])) \<le> 1
   \<and> Model value_eq 10 None None (Some [Num 1, Num 2, Num (1::real)]) =
     Inr \<lparr>L = 4,
          x_fields = [Obj 10 (Const 0), Obj 10 (Const 0), Obj 10 (Const 0), Obj 10 (Const 0)],
          z_fields = [Obj 11 (Const 0), Obj 11 (Const 0), Obj 11 (Const 0), Obj 11 (Const 0)],
          zz_couplers = [Obj 12 (Const 1), Obj 13 (Const 2), Obj 12 (Const 1) :: (real, nat) elem],
          map_btwn_site_indices_and_unique_x_fields = [0, 0, 0, 0]\<rparr>
   \<and> zero_array 4 [Obj 10 (Const 0), Obj 10 (Const 0), Obj 10 (Const 0),
                     Obj 10 (Const 0) :: (real, nat) elem]
   \<and> zero_array 4 [Obj 11 (Const 0), Obj 11 (Const 0), Obj 11 (Const 0),
                     Obj 11 (Const 0) :: (real, nat) elem]"
proof -
  have c: "card (implied_lengths None None
              (Some [Num 1, Num 2, Num (1::real) :: (real, nat) elem])) \<le> 1"
    by (simp add: implied_lengths_def implied_length_def)
  have m: "Model value_eq 10 None None (Some [Num 1, Num 2, Num (1::real)]) =
     Inr \<lparr>L = 4,
          x_fields = [Obj 10 (Const 0), Obj 10 (Const 0), Obj 10 (Const 0), Obj 10 (Const 0)],
          z_fields = [Obj 11 (Const 0), Obj 11 (Const 0), Obj 11 (Const 0), Obj 11 (Const 0)],
          zz_couplers = [Obj 12 (Const 1), Obj 13 (Const 2), Obj 12 (Const 1) :: (real, nat) elem],
          map_btwn_site_indices_and_unique_x_fields = [0, 0, 0, 0]\<rparr>"
    by code_simp
  from chain_length_and_default_arrays [OF c, of value_eq 10] c m show ?thesis by auto
qed

text \<open>
  Claim C5. With the x-fields \<open>[1.0, 2.0, 1.0, 3.0]\<close> and any other inputs the constructor
  accepts, the normalized x-fields at sites 0 and 2 are one and the same object and the map
  is \<open>[0, 1, 0, 3]\<close>. Of \<open>==\<close> it is used that it compares numbers as numbers, that a
  \<open>Scalar\<close> is equal to itself, and that two \<open>Scalar\<close>s built from different numbers are
  not equal.
\<close>

theorem example_x_fields_share_and_map:
  assumes "Model eq nxt z_fields_in (Some [Num 1, Num 2, Num 1, Num (3::real)]) zz_couplers_in
             = Inr m"
    and "\<forall>a b. eq (Num a) (Num b) = (a = b)"
    and "\<forall>a s. eq (Obj a s) (Obj a s)"
    and "\<forall>a b u v. eq (Obj a (Const u)) (Obj b (Const v)) \<longrightarrow> u = v"
  shows "x_fields m ! 0 = x_fields m ! 2 \<and>
         x_fields m = [Obj nxt (Const 1), Obj (nxt + 1) (Const 2), Obj nxt (Const 1),
                       Obj (nxt + 2) (Const 3)] \<and>
         map_btwn_site_indices_and_unique_x_fields m = [0, 1, 0, 3]"
proof -
  let ?x = "Some [Num 1, Num 2, Num 1, Num (3::real)]"
  from assms(2) have e1: "\<And>a b. eq (Num a) (Num b) = (a = b)" by simp
  from assms(3) have e2: "\<And>a s. eq (Obj a s) (Obj a s) = True" by simp
  from assms(4) have e3: "\<And>a b u v. u \<noteq> v \<Longrightarrow> eq (Obj a (Const u)) (Obj b (Const v)) = False"
    by blast
  from Model_fields [OF assms(1)] obtain n1 where
    dl: "determine_L z_fields_in ?x zz_couplers_in = Inr (L m)" and
    xf: "construct_attribute eq (L m) nxt ?x (L m) = Inr (x_fields m, n1)" and
    mp: "calc_map_btwn_site_indices_and_unique_x_fields eq (L m) (x_fields m) =
       Inr (map_btwn_site_indices_and_unique_x_fields m)" by blast
  from determine_L_Inr(5) [OF dl] have L4: "L m = 4" by simp
  have "construct_attribute eq 4 nxt ?x 4 =
      Inr ([Obj nxt (Const 1), Obj (Suc nxt) (Const 2), Obj nxt (Const 1),
            Obj (Suc (Suc nxt)) (Const 3)], Suc (Suc (Suc nxt)))"
    by (simp add: construct_attribute_def upt_rec e1)
  with xf L4 have x: "x_fields m = [Obj nxt (Const 1), Obj (Suc nxt) (Const 2),
      Obj nxt (Const 1), Obj (Suc (Suc nxt)) (Const 3)]" by simp
  have "calc_map_btwn_site_indices_and_unique_x_fields eq 4
          [Obj nxt (Const 1), Obj (Suc nxt) (Const 2), Obj nxt (Const 1),
           Obj (Suc (Suc nxt)) (Const 3)] = Inr [0, 1, 0, 3]"
    by (simp add: calc_map_btwn_site_indices_and_unique_x_fields_def upt_rec e2 e3)
  with mp L4 x have "map_btwn_site_indices_and_unique_x_fields m = [0, 1, 0, 3]" by simp
  with x show ?thesis by simp
qed

theorem example_x_fields_share_and_map_witness:
  "Model value_eq 10 None (Some [Num 1, Num 2, Num 1, Num (3::real)]) None =
     Inr \<lparr>L = 4,
          x_fields = [Obj 10 (Const 1), Obj 11 (Const 2), Obj 10 (Const 1), Obj 12 (Const 3)],
          z_fields = [Obj 13 (Const 0), Obj 13 (Const 0), Obj 13 (Const 0), Obj 13 (Const 0)],
          zz_couplers = [Obj 14 (Const 0), Obj 14 (Const 0), Obj 14 (Const 0) :: (real, nat) elem],
          map_btwn_site_indices_and_unique_x_fields = [0, 1, 0, 3]\<rparr> \<and>
   [Obj 10 (Const 1), Obj 11 (Const 2), Obj 10 (Const 1), Obj 12 (Const 3)] ! 0 =
   [Obj 10 (Const 1), Obj 11 (Const 2), Obj 10 (Const 1),
    Obj 12 (Const 3) :: (real, nat) elem] ! 2"
proof -
  have m: "Model value_eq 10 None (Some [Num 1, Num 2, Num 1, Num (3::real)]) None =
     Inr \<lparr>L = 4,
          x_fields = [Obj 10 (Const 1), Obj 11 (Const 2), Obj 10 (Const 1), Obj 12 (Const 3)],
          z_fields = [Obj 13 (Const 0), Obj 13 (Const 0), Obj 13 (Const 0), Obj 13 (Const 0)],
          zz_couplers = [Obj 14 (Const 0), Obj 14 (Const 0), Obj 14 (Const 0) :: (real, nat) elem],
          map_btwn_site_indices_and_unique_x_fields = [0, 1, 0, 3]\<rparr>"
    by code_simp
  have h1: "\<forall>a b. value_eq (Num a :: (real, nat) elem) (Num b) = (a = b)"
    by (simp add: value_eq_def)
  have h2: "\<forall>a s. value_eq (Obj a s :: (real, nat) elem) (Obj a s)"
    by (simp add: value_eq_def)
  have h3: "\<forall>a b u v. value_eq (Obj a (Const u) :: (real, nat) elem) (Obj b (Const v))
              \<longrightarrow> u = v"
    by (simp add: value_eq_def)
  from example_x_fields_share_and_map [OF m h1 h2 h3] m show ?thesis by simp
qed

text \<open>
  Claim C7, as the code has it. With no x-fields and a chain of four sites, the four
  normalized x-fields are one shared zero scalar and the map is \<open>[0, 0, 0, 0]\<close>, as soon as
  \<open>0 == 0\<close> holds and a \<open>Scalar\<close> is equal to itself.
\<close>

theorem no_x_fields_map_is_all_zero:
  assumes "Model eq nxt z_fields_in x_fields_in zz_couplers_in = Inr m"
    and "\<not> present x_fields_in" and "L m = 4"
    and "eq (Num 0) (Num 0)" and "\<forall>a s. eq (Obj a s) (Obj a s)"
  shows "x_fields m = [Obj nxt (Const 0), Obj nxt (Const 0), Obj nxt (Const 0),
                       Obj nxt (Const 0)] \<and>
         map_btwn_site_indices_and_unique_x_fields m = [0, 0, 0, 0]"
proof -
  from assms(5) have e2: "\<And>a s. eq (Obj a s) (Obj a s) = True" by simp
  from Model_fields [OF assms(1)] assms(3) obtain n1 where
    xf: "construct_attribute eq 4 nxt x_fields_in 4 = Inr (x_fields m, n1)" and
    mp: "calc_map_btwn_site_indices_and_unique_x_fields eq 4 (x_fields m) =
       Inr (map_btwn_site_indices_and_unique_x_fields m)" by auto
  have "construct_attribute eq 4 nxt x_fields_in 4 =
      Inr ([Obj nxt (Const 0), Obj nxt (Const 0), Obj nxt (Const 0), Obj nxt (Const 0)],
           Suc nxt)"
    using assms(2,4)
    by (cases x_fields_in) (simp_all add: construct_attribute_def upt_rec eval_nat_numeral)
  with xf have x: "x_fields m = [Obj nxt (Const 0), Obj nxt (Const 0), Obj nxt (Const 0),
      Obj nxt (Const 0)]" by simp
  have "calc_map_btwn_site_indices_and_unique_x_fields eq 4
          [Obj nxt (Const 0), Obj nxt (Const 0), Obj nxt (Const 0), Obj nxt (Const 0)]
        = Inr [0, 0, 0, 0]"
    by (simp add: calc_map_btwn_site_indices_and_unique_x_fields_def upt_rec e2)
  with mp x show ?thesis by simp
qed

theorem no_x_fields_map_is_all_zero_witness:
  "Model value_eq 10 None None (Some [Num 1, Num 2, Num (3::real)]) =
     Inr \<lparr>L = 4,
          x_fields = [Obj 10 (Const 0), Obj 10 (Const 0), Obj 10 (Const 0), Obj 10 (Const 0)],
          z_fields = [Obj 11 (Const 0), Obj 11 (Const 0), Obj 11 (Const 0), Obj 11 (Const 0)],
          zz_couplers = [Obj 12 (Const 1), Obj 13 (Const 2), Obj 14 (Const 3) :: (real, nat) elem],
          map_btwn_site_indices_and_unique_x_fields = [0, 0, 0, 0]\<rparr> \<and>
   \<not> present (None :: (real, nat) elem list option) \<and>
   value_eq (Num 0 :: (real, nat) elem) (Num 0)"
proof -
  have m: "Model value_eq 10 None None (Some [Num 1, Num 2, Num (3::real)]) =
     Inr \<lparr>L = 4,
          x_fields = [Obj 10 (Const 0), Obj 10 (Const 0), Obj 10 (Const 0), Obj 10 (Const 0)],
          z_fields = [Obj 11 (Const 0), Obj 11 (Const 0), Obj 11 (Const 0), Obj 11 (Const 0)],
          zz_couplers = [Obj 12 (Const 1), Obj 13 (Const 2), Obj 14 (Const 3) :: (real, nat) elem],
          map_btwn_site_indices_and_unique_x_fields = [0, 0, 0, 0]\<rparr>"
    by code_simp
  have h: "value_eq (Num 0 :: (real, nat) elem) (Num 0)"
    "\<forall>a s. value_eq (Obj a s :: (real, nat) elem) (Obj a s)"
    by (simp_all add: value_eq_def)
  from no_x_fields_map_is_all_zero [OF m _ _ h] m h(1) show ?thesis by simp
qed

theorem no_x_fields_map_counterexample:
  "Model value_eq 10 None None (Some [Num 1, Num 2, Num (3::real)]) =
     Inr \<lparr>L = 4,
          x_fields = [Obj 10 (Const 0), Obj 10 (Const 0), Obj 10 (Const 0), Obj 10 (Const 0)],
          z_fields = [Obj 11 (Const 0), Obj 11 (Const 0), Obj 11 (Const 0), Obj 11 (Const 0)],
          zz_couplers = [Obj 12 (Const 1), Obj 13 (Const 2), Obj 14 (Const 3) :: (real, nat) elem],
          map_btwn_site_indices_and_unique_x_fields = [0, 0, 0, 0]\<rparr> \<and>
   map_btwn_site_indices_and_unique_x_fields
     (projr (Model value_eq 10 None None (Some [Num 1, Num 2, Num (3::real) :: (real, nat) elem])))
     \<noteq> [0, 1, 2, 3]"
proof -
  have m: "Model value_eq 10 None None (Some [Num 1, Num 2, Num (3::real)]) =
     Inr \<lparr>L = 4,
          x_fields = [Obj 10 (Const 0), Obj 10 (Const 0), Obj 10 (Const 0), Obj 10 (Const 0)],
          z_fields = [Obj 11 (Const 0), Obj 11 (Const 0), Obj 11 (Const 0), Obj 11 (Const 0)],
          zz_couplers = [Obj 12 (Const 1), Obj 13 (Const 2), Obj 14 (Const 3) :: (real, nat) elem],
          map_btwn_site_indices_and_unique_x_fields = [0, 0, 0, 0]\<rparr>"
    by code_simp
  then show ?thesis by simp
qed

lemma state_before_Scalar:
  assumes ij: "i < j" "j < length c" and le: "length c \<le> self_L" and e: "eq (c ! j) (c ! i)"
  shows "\<exists>st. state_before eq self_L n c j = Inr st \<and> is_Scalar (attribute st ! j)"
proof -
  let ?s0 = "\<lparr>attribute = c, elem_already_set = replicate self_L False, next_id = n\<rparr>"
  have "attribute ?s0 = c" "length c \<le> length (elem_already_set ?s0)" using le by simp_all
  from outer_loop_upt [OF this, of j eq] ij(2)
  obtain st where st: "outer_loop eq c (length c) [0..<j] ?s0 = Inr st"
    and inv: "attr_inv eq c n j st" by auto
  from inv have scs: "\<forall>k<length c. k < j \<longrightarrow> is_Scalar (attribute st ! k)"
    and all: "\<forall>k<length c. case last_match eq c (min j k) k of
          Some i \<Rightarrow> attribute st ! k = attribute st ! i
        | None \<Rightarrow> if k < j then leader_ok n (next_id st) (c ! k) (attribute st ! k)
                  else attribute st ! k = c ! k"
    by (simp_all add: attr_inv_def)
  have sc: "is_Scalar (attribute st ! k)" if "k < j" for k
    using scs [rule_format, of k] that ij(2) by simp
  from all [rule_format, OF ij(2)]
  have cs: "case last_match eq c j j of
          Some i \<Rightarrow> attribute st ! j = attribute st ! i
        | None \<Rightarrow> attribute st ! j = c ! j"
    by (simp split: option.splits)
  have "is_Scalar (attribute st ! j)"
  proof (cases "last_match eq c j j")
    case None
    from last_match_NoneD [OF None ij(1)] e show ?thesis by simp
  next
    case (Some k)
    from last_match_SomeD [OF Some] have "k < j" by simp
    from sc [OF this] cs Some show ?thesis by simp
  qed
  with st show ?thesis by (auto simp: state_before_def)
qed

lemma normalized_shares_with_Scalar:
  assumes nrm: "normalized eq c nxt nxt' A" and sym: "symp eq" and trans: "transp eq"
    and le: "length c \<le> self_L"
  shows "shares_with_Scalar eq self_L c A"
  unfolding shares_with_Scalar_def
proof (intro allI impI)
  fix i j a s v
  assume h: "i < j \<and> j < length c \<and> c ! i = Obj a s \<and> c ! j = Num v \<and> eq (c ! j) (c ! i)"
  then have ij: "i < j" "j < length c" and ci: "c ! i = Obj a s"
    and e: "eq (c ! j) (c ! i)" by blast+
  have e': "eq (c ! i) (c ! j)" using sympD [OF sym e] .
  from normalized_shared [OF nrm sym trans ij e'] have 1: "A ! j = A ! i" .
  have 2: "A ! j = Obj a s" if "\<forall>k<i. \<not> eq (c ! i) (c ! k)"
  proof -
    from ij have "i < length c" by simp
    from normalized_leader [OF nrm this] that ci have "A ! i = Obj a s"
      by (simp add: leader_ok_def)
    with 1 show ?thesis by simp
  qed
  from state_before_Scalar [of i j c self_L eq, OF ij le e]
  have 3: "\<forall>n. \<exists>st. state_before eq self_L n c j = Inr st \<and> is_Scalar (attribute st ! j)"
    by blast
  from 1 2 3 show "A ! j = A ! i \<and> ((\<forall>k<i. \<not> eq (c ! i) (c ! k)) \<longrightarrow> A ! j = Obj a s) \<and>
        (\<forall>n. \<exists>st. state_before eq self_L n c j = Inr st \<and> is_Scalar (attribute st ! j))"
    by simp
qed

text \<open>
  Claim C10, as the code has it. For each of the three arrays: when an earlier entry is a
  \<open>Scalar\<close> object \<open>s\<close> and a later entry is a number equal to it, the later normalized
  entry is the same object as the normalized entry at the place of \<open>s\<close>; it is \<open>s\<close> itself
  when no entry before \<open>s\<close> is equal to \<open>s\<close>. The number is not wrapped: when the outer
  loop reaches its place, the entry there is a \<open>Scalar\<close> already. The comparison \<open>==\<close> is
  taken symmetric and transitive.
\<close>

theorem number_after_equal_Scalar_shares_it:
  assumes "Model eq nxt z_fields_in x_fields_in zz_couplers_in = Inr m"
    and "symp eq" and "transp eq"
  shows "(present z_fields_in \<longrightarrow>
            shares_with_Scalar eq (L m) (the z_fields_in) (z_fields m)) \<and>
         (present x_fields_in \<longrightarrow>
            shares_with_Scalar eq (L m) (the x_fields_in) (x_fields m)) \<and>
         (present zz_couplers_in \<longrightarrow>
            shares_with_Scalar eq (L m) (the zz_couplers_in) (zz_couplers m))"
proof -
  note ok = Model_InrD [OF assms(1)]
  note lens = model_ok_lengths [OF ok]
  from ok obtain n1 n2 n3 where
    nx: "normalized eq (effective (L m) x_fields_in) nxt n1 (x_fields m)" and
    nz: "normalized eq (effective (L m) z_fields_in) n1 n2 (z_fields m)" and
    nzz: "normalized eq (effective (L m - 1) zz_couplers_in) n2 n3 (zz_couplers m)"
    by (rule model_ok_nexts)
  from normalized_shares_with_Scalar [OF nx assms(2,3), of "L m"] lens(5)
  have "present x_fields_in \<longrightarrow> shares_with_Scalar eq (L m) (the x_fields_in) (x_fields m)"
    by (auto simp: effective_present)
  moreover from normalized_shares_with_Scalar [OF nz assms(2,3), of "L m"] lens(6)
  have "present z_fields_in \<longrightarrow> shares_with_Scalar eq (L m) (the z_fields_in) (z_fields m)"
    by (auto simp: effective_present)
  moreover from normalized_shares_with_Scalar [OF nzz assms(2,3), of "L m"] lens(7)
  have "present zz_couplers_in \<longrightarrow>
          shares_with_Scalar eq (L m) (the zz_couplers_in) (zz_couplers m)"
    by (auto simp: effective_present)
  ultimately show ?thesis by simp
qed

theorem number_after_equal_Scalar_shares_it_witness:
  "Model value_eq 10 None (Some [Obj 2 (Const 5), Num (5::real)]) None =
     Inr \<lparr>L = 2, x_fields = [Obj 2 (Const 5), Obj 2 (Const 5)],
          z_fields = [Obj 10 (Const 0), Obj 10 (Const 0)],
          zz_couplers = [Obj 11 (Const 0) :: (real, nat) elem],
          map_btwn_site_indices_and_unique_x_fields = [0, 0]\<rparr> \<and>
   value_eq (Num 5 :: (real, nat) elem) (Obj 2 (Const 5)) \<and>
   shares_with_Scalar value_eq 2 [Obj 2 (Const 5), Num 5]
     [Obj 2 (Const 5), Obj 2 (Const 5) :: (real, nat) elem]"
proof -
  have m: "Model value_eq 10 None (Some [Obj 2 (Const 5), Num (5::real)]) None =
     Inr \<lparr>L = 2, x_fields = [Obj 2 (Const 5), Obj 2 (Const 5)],
          z_fields = [Obj 10 (Const 0), Obj 10 (Const 0)],
          zz_couplers = [Obj 11 (Const 0) :: (real, nat) elem],
          map_btwn_site_indices_and_unique_x_fields = [0, 0]\<rparr>"
    by code_simp
  have e: "value_eq (Num 5 :: (real, nat) elem) (Obj 2 (Const 5))"
    by (simp add: value_eq_def)
  from number_after_equal_Scalar_shares_it [OF m symp_value_eq transp_value_eq] m e
  show ?thesis by simp
qed

theorem number_after_equal_Scalar_counterexample:
  "Model value_eq 10 None (Some [Obj 1 (Const 5), Obj 2 (Const 5), Num (5::real)]) None =
     Inr \<lparr>L = 3, x_fields = [Obj 1 (Const 5), Obj 1 (Const 5), Obj 1 (Const 5)],
          z_fields = [Obj 10 (Const 0), Obj 10 (Const 0), Obj 10 (Const 0)],
          zz_couplers = [Obj 11 (Const 0), Obj 11 (Const 0) :: (real, nat) elem],
          map_btwn_site_indices_and_unique_x_fields = [0, 0, 0]\<rparr> \<and>
   value_eq (Num 5 :: (real, nat) elem) (Obj 2 (Const 5)) \<and>
   x_fields (projr (Model value_eq 10 None
       (Some [Obj 1 (Const 5), Obj 2 (Const 5), Num (5::real) :: (real, nat) elem]) None)) ! 2
     \<noteq> Obj 2 (Const 5)"
proof -
  have m: "Model value_eq 10 None (Some [Obj 1 (Const 5), Obj 2 (Const 5), Num (5::real)]) None =
     Inr \<lparr>L = 3, x_fields = [Obj 1 (Const 5), Obj 1 (Const 5), Obj 1 (Const 5)],
          z_fields = [Obj 10 (Const 0), Obj 10 (Const 0), Obj 10 (Const 0)],
          zz_couplers = [Obj 11 (Const 0), Obj 11 (Const 0) :: (real, nat) elem],
          map_btwn_site_indices_and_unique_x_fields = [0, 0, 0]\<rparr>"
    by code_simp
  then show ?thesis by (simp add: value_eq_def)
qed

end
